theory Spec2Isabelle
  imports Complex_Main
begin

section \<open>JavaScript values\<close>

text \<open>
  A JavaScript number as far as this program meets one: the program parses, copies and
  prints numbers and never computes with them. \<open>Fin q\<close> is a finite number other than
  negative zero, standing for its exact value (the rounding of a literal to the nearest
  double is not modelled); \<open>NegZero\<close>, \<open>PosInf\<close> and
  \<open>NegInf\<close> are the values that \<open>JSON.parse\<close> returns for \<open>-0\<close> and for literals
  beyond the range of a double, and that \<open>JSON.stringify\<close> does not print back.
\<close>

datatype jsnum = Fin rat | NegZero | PosInf | NegInf

text \<open>A JSON document as a tree: what \<open>JSON.parse\<close> reads and \<open>JSON.stringify\<close> prints.
  The fields of an object are in the order in which JavaScript enumerates them.\<close>

datatype json =
    JNull
  | JBool bool
  | JNum jsnum
  | JStr string
  | JArr "json list"
  | JObj "(string \<times> json) list"

text \<open>
  Values as the running program holds them: primitives, and references to objects
  that live in a store. Objects are mutable and may be shared, so they are not trees.
\<close>

type_synonym addr = nat

datatype val = VUndef | VNull | VBool bool | VNum jsnum | VStr string | VRef addr

text \<open>
  An object of the store, with its own properties only (the prototype chain is not
  modelled). \<open>OObj\<close> is a plain object, its properties in enumeration order.
  \<open>OArr\<close> is an array: its elements (\<open>VUndef\<close> for a hole), then the properties
  whose names are not indices.
\<close>

datatype obj = OObj "(string \<times> val) list" | OArr "val list" "(string \<times> val) list"

type_synonym heap = "obj list"

section \<open>types.ts\<close>

datatype severity = Critical | Warning | Info

record jsonModification =
  path :: string
  newValue :: val
  requiresUserInput :: bool

record WorkflowError =
  error_id :: string
  severity :: severity
  description :: string
  impact :: string
  nodeId :: "string option"
  recommendation :: string
  jsonModification :: jsonModification

record Summary =
  accomplishment :: string
  trigger :: string
  finalOutcome :: string
  analogy :: string

record NodeBreakdown =
  nb_nodeId :: string
  nodeName :: string
  purpose :: string
  requiredInputs :: string
  configurationNeeds :: string
  nb_output :: string
  visualMetaphor :: string

record AnalysisResult =
  isValid :: bool
  summary :: Summary
  textFlow :: string
  nodeBreakdowns :: "NodeBreakdown list"
  errors :: "WorkflowError list"

section \<open>Property keys\<close>

text \<open>
  A key is an array index when it is the decimal numeral, without a leading zero, of a
  number below \<open>2\<^sup>3\<^sup>2 - 1\<close>. An object enumerates its array indices first, in
  ascending order, then its other keys in the order of their creation:
  \<open>putProperty\<close> is the assignment \<open>o[k] = v\<close> on the list of own properties.
\<close>

text \<open>\<open>String.prototype.startsWith\<close>.\<close>

definition startsWith :: "string \<Rightarrow> string \<Rightarrow> bool" where
  "startsWith s t \<longleftrightarrow> take (length t) s = t"

definition isDigit :: "char \<Rightarrow> bool" where
  "isDigit c \<longleftrightarrow> 48 \<le> (of_char c :: nat) \<and> (of_char c :: nat) \<le> 57"

definition digitValue :: "char \<Rightarrow> nat" where
  "digitValue c = of_char c - 48"

definition natOfDigits :: "string \<Rightarrow> nat" where
  "natOfDigits ds = foldl (\<lambda>n c. 10 * n + digitValue c) 0 ds"

definition lexDigits :: "string \<Rightarrow> string \<times> string" where
  "lexDigits s = (takeWhile isDigit s, dropWhile isDigit s)"

definition isUint :: "string \<Rightarrow> bool" where
  "isUint s \<longleftrightarrow> s \<noteq> [] \<and> list_all isDigit s \<and> (s = ''0'' \<or> hd s \<noteq> CHR ''0'')"

definition isArrayIndex :: "string \<Rightarrow> bool" where
  "isArrayIndex k \<longleftrightarrow> isUint k \<and> natOfDigits k < 2 ^ 32 - 1"

fun insertIndexKey :: "string \<Rightarrow> 'v \<Rightarrow> (string \<times> 'v) list \<Rightarrow> (string \<times> 'v) list" where
  "insertIndexKey k v [] = [(k, v)]"
| "insertIndexKey k v (f # fs) =
     (if isArrayIndex (fst f) \<and> natOfDigits (fst f) < natOfDigits k
      then f # insertIndexKey k v fs else (k, v) # f # fs)"

definition putProperty :: "string \<Rightarrow> 'v \<Rightarrow> (string \<times> 'v) list \<Rightarrow> (string \<times> 'v) list" where
  "putProperty k v fs =
     (if k \<in> set (map fst fs) then map (\<lambda>f. if fst f = k then (k, v) else f) fs
      else if isArrayIndex k then insertIndexKey k v fs
      else fs @ [(k, v)])"

section \<open>The JavaScript engine\<close>

text \<open>
  The built-ins of the engine that the program calls and the model does not define:
  \<open>JSON.parse\<close> on a text (\<open>Inl\<close> the message of the \<open>SyntaxError\<close> it throws),
  the printing of a finite number other than zero, the coercion of a value assigned to the \<open>length\<close>
  of an array (\<open>None\<close> when the engine throws a \<open>RangeError\<close>), and the depth to which
  \<open>JSON.stringify\<close> descends before it throws, whether the library runs as strict
  code, in which an assignment to a property of a primitive throws a \<open>TypeError\<close>,
  and the message of the \<open>TypeError\<close> of a read from \<open>undefined\<close> or \<open>null\<close>.
  Every function that calls one of them takes the engine as its first argument.
\<close>

record engine =
  JSON_parse :: "string \<Rightarrow> string + json"
  numberToString :: "rat \<Rightarrow> string"
  toArrayLength :: "heap \<Rightarrow> val \<Rightarrow> nat option"
  maxDepth :: nat
  strictMode :: bool
  typeErrorMessage :: string

text \<open>\<open>String.prototype.trim\<close>. A \<open>char\<close> stands for a UTF-16 code unit below 256; the
  white space and line terminators in that range are these seven.\<close>

definition isWhiteSpace :: "char \<Rightarrow> bool" where
  "isWhiteSpace c \<longleftrightarrow>
     c \<in> set [CHR 0x09, CHR 0x0A, CHR 0x0B, CHR 0x0C, CHR 0x0D, CHR 0x20, CHR 0xA0]"

definition trim :: "string \<Rightarrow> string" where
  "trim s = rev (dropWhile isWhiteSpace (rev (dropWhile isWhiteSpace s)))"

text \<open>\<open>String.prototype.includes\<close>: the second string occurs in the first.\<close>

fun str_includes :: "string \<Rightarrow> string \<Rightarrow> bool" where
  "str_includes [] t \<longleftrightarrow> t = []"
| "str_includes (c # cs) t \<longleftrightarrow> startsWith (c # cs) t \<or> str_includes cs t"

text \<open>
  The objects that \<open>JSON.parse\<close> creates for a document: every array and object of the
  tree is a new object of the store, at an address that was not in use.
\<close>

fun alloc :: "json \<Rightarrow> heap \<Rightarrow> val \<times> heap"
  and alloc_list :: "json list \<Rightarrow> heap \<Rightarrow> val list \<times> heap"
  and alloc_fields :: "(string \<times> json) list \<Rightarrow> heap \<Rightarrow> (string \<times> val) list \<times> heap"
where
  "alloc JNull h = (VNull, h)"
| "alloc (JBool b) h = (VBool b, h)"
| "alloc (JNum n) h = (VNum n, h)"
| "alloc (JStr s) h = (VStr s, h)"
| "alloc (JArr xs) h =
     (case alloc_list xs h of (vs, h') \<Rightarrow> (VRef (length h'), h' @ [OArr vs []]))"
| "alloc (JObj fs) h =
     (case alloc_fields fs h of (kvs, h') \<Rightarrow> (VRef (length h'), h' @ [OObj kvs]))"
| "alloc_list [] h = ([], h)"
| "alloc_list (x # xs) h =
     (case alloc x h of (v, h1) \<Rightarrow>
        (case alloc_list xs h1 of (vs, h2) \<Rightarrow> (v # vs, h2)))"
| "alloc_fields [] h = ([], h)"
| "alloc_fields (f # fs) h =
     (case alloc (snd f) h of (v, h1) \<Rightarrow>
        (case alloc_fields fs h1 of (kvs, h2) \<Rightarrow> ((fst f, v) # kvs, h2)))"

section \<open>Objects of the store\<close>

datatype exn = TypeError | RangeError | SyntaxError

definition lookupObj :: "heap \<Rightarrow> addr \<Rightarrow> obj option" where
  "lookupObj h a = (if a < length h then Some (h ! a) else None)"

text \<open>\<open>o[k]\<close> read: an absent property, a hole and an index beyond the end are \<open>undefined\<close>.\<close>

definition lookupProperty :: "(string \<times> val) list \<Rightarrow> string \<Rightarrow> val" where
  "lookupProperty fs k = (case map_of fs k of None \<Rightarrow> VUndef | Some v \<Rightarrow> v)"

definition getProperty :: "obj \<Rightarrow> string \<Rightarrow> val" where
  "getProperty ob k =
     (case ob of
        OObj fs \<Rightarrow> lookupProperty fs k
      | OArr es xs \<Rightarrow>
          (if isArrayIndex k then (if natOfDigits k < length es then es ! natOfDigits k else VUndef)
           else if k = ''length'' then VNum (Fin (of_nat (length es)))
           else lookupProperty xs k))"

text \<open>\<open>k in o\<close>.\<close>

definition hasProperty :: "obj \<Rightarrow> string \<Rightarrow> bool" where
  "hasProperty ob k =
     (case ob of
        OObj fs \<Rightarrow> k \<in> set (map fst fs)
      | OArr es xs \<Rightarrow>
          (if isArrayIndex k then natOfDigits k < length es \<and> es ! natOfDigits k \<noteq> VUndef
           else k = ''length'' \<or> k \<in> set (map fst xs)))"

text \<open>\<open>a[n] = v\<close> on the elements of an array: beyond the end, holes fill the gap.\<close>

definition setElement :: "nat \<Rightarrow> val \<Rightarrow> val list \<Rightarrow> val list" where
  "setElement n v es =
     (if n < length es then es[n := v] else es @ replicate (n - length es) VUndef @ [v])"

definition resize :: "nat \<Rightarrow> val list \<Rightarrow> val list" where
  "resize n es = take n es @ replicate (n - length es) VUndef"

text \<open>\<open>o[k] = v\<close>: \<open>None\<close> when the engine throws (the \<open>length\<close> of an array only).\<close>

definition setProperty :: "engine \<Rightarrow> heap \<Rightarrow> obj \<Rightarrow> string \<Rightarrow> val \<Rightarrow> obj option" where
  "setProperty E h ob k v =
     (case ob of
        OObj fs \<Rightarrow> Some (OObj (putProperty k v fs))
      | OArr es xs \<Rightarrow>
          (if isArrayIndex k then Some (OArr (setElement (natOfDigits k) v es) xs)
           else if k = ''length'' then
             (case toArrayLength E h v of
                None \<Rightarrow> None
              | Some n \<Rightarrow> Some (OArr (resize n es) xs))
           else Some (OArr es (putProperty k v xs))))"

section \<open>JSON.stringify and JSON.parse on values of the store\<close>

text \<open>
  The tree that \<open>JSON.stringify\<close> reads off a value: \<open>undefined\<close> is \<open>null\<close> in an
  array and is left out of an object, and the properties of an array that are not
  elements are not printed. \<open>None\<close> is the exception thrown at an object below the
  depth given (a circular structure never ends above it).
\<close>

fun snapshot :: "nat \<Rightarrow> heap \<Rightarrow> val \<Rightarrow> json option" where
  "snapshot d h VUndef = Some JNull"
| "snapshot d h VNull = Some JNull"
| "snapshot d h (VBool b) = Some (JBool b)"
| "snapshot d h (VNum n) = Some (JNum n)"
| "snapshot d h (VStr s) = Some (JStr s)"
| "snapshot 0 h (VRef a) = None"
| "snapshot (Suc d) h (VRef a) =
     (case lookupObj h a of
        None \<Rightarrow> None
      | Some (OArr es xs) \<Rightarrow> map_option JArr (those (map (snapshot d h) es))
      | Some (OObj fs) \<Rightarrow>
          map_option JObj
            (those (map (\<lambda>f. map_option (Pair (fst f)) (snapshot d h (snd f)))
                        (filter (\<lambda>f. snd f \<noteq> VUndef) fs))))"

text \<open>
  What \<open>JSON.parse\<close> reads back from the text that \<open>JSON.stringify\<close> printed for a
  tree: a number that is not finite was printed as \<open>null\<close>, negative zero as \<open>0\<close>.
\<close>

fun reparse :: "json \<Rightarrow> json" where
  "reparse (JNum n) = (case n of Fin q \<Rightarrow> JNum (Fin q) | NegZero \<Rightarrow> JNum (Fin 0) | _ \<Rightarrow> JNull)"
| "reparse (JArr xs) = JArr (map reparse xs)"
| "reparse (JObj fs) = JObj (map (map_prod (\<lambda>k. k) reparse) fs)"
| "reparse j = j"

text \<open>A tree all of whose numbers are finite and not negative zero.\<close>

fun plainNumbers :: "json \<Rightarrow> bool" where
  "plainNumbers (JNum n) = (case n of Fin q \<Rightarrow> True | _ \<Rightarrow> False)"
| "plainNumbers (JArr xs) = list_all plainNumbers xs"
| "plainNumbers (JObj fs) = list_all (\<lambda>f. plainNumbers (snd f)) fs"
| "plainNumbers j = True"

subsection \<open>The text of \<open>JSON.stringify(value, null, 2)\<close>\<close>

definition hexDigit :: "nat \<Rightarrow> char" where
  "hexDigit n = ''0123456789abcdef'' ! (n mod 16)"

definition escapeChar :: "char \<Rightarrow> string" where
  "escapeChar c =
     (if c = CHR 0x22 then [CHR 0x5C, CHR 0x22]
      else if c = CHR 0x5C then [CHR 0x5C, CHR 0x5C]
      else if c = CHR 0x08 then [CHR 0x5C, CHR ''b'']
      else if c = CHR 0x0C then [CHR 0x5C, CHR ''f'']
      else if c = CHR 0x0A then [CHR 0x5C, CHR ''n'']
      else if c = CHR 0x0D then [CHR 0x5C, CHR ''r'']
      else if c = CHR 0x09 then [CHR 0x5C, CHR ''t'']
      else if (of_char c :: nat) < 32
        then [CHR 0x5C, CHR ''u'', CHR ''0'', CHR ''0'', hexDigit (of_char c div 16), hexDigit (of_char c mod 16)]
      else [c])"

definition quoteJSONString :: "string \<Rightarrow> string" where
  "quoteJSONString s = CHR 0x22 # concat (map escapeChar s) @ [CHR 0x22]"

definition joinWith :: "string \<Rightarrow> string list \<Rightarrow> string" where
  "joinWith sep xs = (case xs of [] \<Rightarrow> [] | y # ys \<Rightarrow> y @ concat (map (\<lambda>x. sep @ x) ys))"

fun serialize :: "engine \<Rightarrow> string \<Rightarrow> json \<Rightarrow> string" where
  "serialize E ind JNull = ''null''"
| "serialize E ind (JBool b) = (if b then ''true'' else ''false'')"
| "serialize E ind (JNum n) =
     (case n of
        Fin q \<Rightarrow> (if q = 0 then ''0'' else numberToString E q)
      | NegZero \<Rightarrow> ''0''
      | _ \<Rightarrow> ''null'')"
| "serialize E ind (JStr s) = quoteJSONString s"
| "serialize E ind (JArr xs) =
     (if xs = [] then ''[]''
      else ''['' @ [CHR 0x0A] @ (ind @ ''  '')
           @ joinWith ('','' @ [CHR 0x0A] @ (ind @ ''  '')) (map (serialize E (ind @ ''  '')) xs)
           @ [CHR 0x0A] @ ind @ '']'')"
| "serialize E ind (JObj fs) =
     (if fs = [] then ''{}''
      else ''{'' @ [CHR 0x0A] @ (ind @ ''  '')
           @ joinWith ('','' @ [CHR 0x0A] @ (ind @ ''  ''))
               (map (\<lambda>f. quoteJSONString (fst f) @ '': '' @ serialize E (ind @ ''  '') (snd f)) fs)
           @ [CHR 0x0A] @ ind @ ''}'')"

definition stringify2 :: "engine \<Rightarrow> json \<Rightarrow> string" where
  "stringify2 E j = serialize E [] j"

section \<open>lodash: set\<close>

text \<open>
  \<open>set(object, path, value)\<close> of lodash 4.17.21, with its helpers. The two regular
  expressions of \<open>isKey\<close> and the one of \<open>stringToPath\<close> are written out as functions.
\<close>

definition isObject :: "val \<Rightarrow> bool" where
  "isObject v = (case v of VRef _ \<Rightarrow> True | _ \<Rightarrow> False)"

text \<open>\<open>isIndex(value)\<close> with the default length \<open>MAX_SAFE_INTEGER\<close>; \<open>reIsUint\<close> is \<open>isUint\<close>.\<close>

definition isIndex :: "string \<Rightarrow> bool" where
  "isIndex k \<longleftrightarrow> isUint k \<and> natOfDigits k < 9007199254740991"

text \<open>\<open>reIsPlainProp\<close>: word characters only.\<close>

definition isWordChar :: "char \<Rightarrow> bool" where
  "isWordChar c \<longleftrightarrow>
     isDigit c \<or> c = CHR ''_''
     \<or> (65 \<le> (of_char c :: nat) \<and> (of_char c :: nat) \<le> 90)
     \<or> (97 \<le> (of_char c :: nat) \<and> (of_char c :: nat) \<le> 122)"

definition isBracket :: "char \<Rightarrow> bool" where
  "isBracket c \<longleftrightarrow> c = CHR ''['' \<or> c = CHR '']''"

text \<open>
  \<open>reIsDeepProp\<close> finds a dot, or an opening bracket whose next bracket is a closing
  one. (Its second alternative, a quoted string between brackets, matches only where
  the first one matches at the last opening bracket of the match.)
\<close>

fun isDeepProp :: "string \<Rightarrow> bool" where
  "isDeepProp [] \<longleftrightarrow> False"
| "isDeepProp (c # cs) \<longleftrightarrow>
     c = CHR ''.''
     \<or> (c = CHR ''['' \<and> startsWith (dropWhile (\<lambda>x. \<not> isBracket x) cs) '']'')
     \<or> isDeepProp cs"

definition isKey :: "obj \<Rightarrow> string \<Rightarrow> bool" where
  "isKey object p \<longleftrightarrow> list_all isWordChar p \<or> \<not> isDeepProp p \<or> hasProperty object p"

text \<open>
  \<open>rePropName\<close>, by its three alternatives. A bracket with a number:
  \<open>-?\d+(?:\.\d+)?\<close> and the closing bracket; the key is the numeral as written.
  Each function gives the key and the number of characters it has read.
\<close>

definition numberKey :: "string \<Rightarrow> (string \<times> nat) option" where
  "numberKey s =
     (let (sign, s1) = (if startsWith s ''-'' then (''-'', tl s) else ([], s));
          (ds, s2) = lexDigits s1;
          (fs, s3) = (if startsWith s2 ''.'' \<and> fst (lexDigits (tl s2)) \<noteq> []
                      then (CHR ''.'' # fst (lexDigits (tl s2)), snd (lexDigits (tl s2)))
                      else ([], s2))
      in if ds \<noteq> [] \<and> startsWith s3 '']'' then Some (sign @ ds @ fs, length s - length (tl s3))
         else None)"

text \<open>A bracket with a quoted string: up to the same quote, a backslash taking the
  next character with it (but not a line terminator), then the closing bracket.\<close>

fun quotedKey :: "char \<Rightarrow> string \<Rightarrow> string \<Rightarrow> (string \<times> string) option" where
  "quotedKey q acc [] = None"
| "quotedKey q acc [c] = None"
| "quotedKey q acc (c # d # cs) =
     (if c = q then (if d = CHR '']'' then Some (rev acc, cs) else None)
      else if c = CHR 0x5C then
        (if d = CHR 0x0A \<or> d = CHR 0x0D then None else quotedKey q (d # c # acc) cs)
      else quotedKey q (c # acc) (d # cs))"

text \<open>\<open>subString.replace(reEscapeChar, '$1')\<close>: a backslash goes, unless a backslash
  comes before it.\<close>

fun unescapeKey :: "string \<Rightarrow> string" where
  "unescapeKey [] = []"
| "unescapeKey [c] = (if c = CHR 0x5C then [] else [c])"
| "unescapeKey (c # d # cs) =
     (if c = CHR 0x5C then (if d = CHR 0x5C then CHR 0x5C # unescapeKey cs else unescapeKey (d # cs))
      else c # unescapeKey (d # cs))"

definition bracketKey :: "string \<Rightarrow> (string \<times> nat) option" where
  "bracketKey s =
     (case numberKey s of
        Some r \<Rightarrow> Some r
      | None \<Rightarrow>
          (case s of
             [] \<Rightarrow> None
           | q # cs \<Rightarrow>
               (if q = CHR 0x22 \<or> q = CHR 0x27 then
                  (case quotedKey q [] cs of
                     None \<Rightarrow> None
                   | Some (raw, rest) \<Rightarrow> Some (unescapeKey raw, length s - length rest))
                else None)))"

text \<open>The empty match: before a dot or \<open>[]\<close> that a dot, \<open>[]\<close> or the end follows.\<close>

definition emptyKeyHere :: "string \<Rightarrow> bool" where
  "emptyKeyHere s \<longleftrightarrow>
     (let r = (if startsWith s ''.'' then Some (drop 1 s)
               else if startsWith s ''[]'' then Some (drop 2 s) else None)
      in case r of
           None \<Rightarrow> False
         | Some t \<Rightarrow> t = [] \<or> startsWith t ''.'' \<or> startsWith t ''[]'')"

definition isPathChar :: "char \<Rightarrow> bool" where
  "isPathChar c \<longleftrightarrow> c \<noteq> CHR ''.'' \<and> \<not> isBracket c"

text \<open>The matches of the global expression, from left to right. After an empty match,
  and where nothing matches, the search goes on one character further.\<close>

function propNames :: "string \<Rightarrow> string list" where
  "propNames [] = []"
| "propNames (c # cs) =
     (if isPathChar c then (c # takeWhile isPathChar cs) # propNames (dropWhile isPathChar cs)
      else
        (case (if c = CHR ''['' then bracketKey cs else None) of
           Some (k, n) \<Rightarrow> k # propNames (drop n cs)
         | None \<Rightarrow> if emptyKeyHere (c # cs) then [] # propNames cs else propNames cs))"
  by pat_completeness auto
termination
  by (relation "measure length") (auto simp: length_dropWhile_le less_Suc_eq_le)

definition stringToPath :: "string \<Rightarrow> string list" where
  "stringToPath s = (if startsWith s ''.'' then [[]] else []) @ propNames s"

definition castPath :: "string \<Rightarrow> obj \<Rightarrow> string list" where
  "castPath p object = (if isKey object p then [p] else stringToPath p)"

definition unsafeKey :: "string \<Rightarrow> bool" where
  "unsafeKey key \<longleftrightarrow> key = ''__proto__'' \<or> key = ''constructor'' \<or> key = ''prototype''"

text \<open>
  The loop of \<open>baseSet\<close>, from the key at \<open>index\<close> on. The store comes back with the
  exception, if one is thrown. Where \<open>nested\<close> is a primitive (what the \<open>length\<close> of an
  array reads back), the assignment does nothing, or throws in strict code, and the
  next \<open>nested\<close> is \<open>undefined\<close>.
\<close>

fun baseSetLoop :: "engine \<Rightarrow> string list \<Rightarrow> val \<Rightarrow> val \<Rightarrow> heap \<Rightarrow> exn option \<times> heap" where
  "baseSetLoop E [] v nested h = (None, h)"
| "baseSetLoop E (key # rest) v nested h =
     (if nested = VUndef \<or> nested = VNull \<or> unsafeKey key then (None, h)
      else
        (case nested of
           VRef a \<Rightarrow>
             (case lookupObj h a of
                None \<Rightarrow> (None, h)
              | Some ob \<Rightarrow>
                  (case (if rest = [] then (v, h)
                         else if isObject (getProperty ob key) then (getProperty ob key, h)
                         else (VRef (length h),
                               h @ [if isIndex (hd rest) then OArr [] [] else OObj []])) of
                     (newValue', h1) \<Rightarrow>
                       (case setProperty E h1 ob key newValue' of
                          None \<Rightarrow> (Some RangeError, h1)
                        | Some ob' \<Rightarrow>
                            baseSetLoop E rest v (getProperty ob' key) (h1[a := ob']))))
         | _ \<Rightarrow> (if strictMode E then Some TypeError else None, h)))"

definition lodashSet :: "engine \<Rightarrow> val \<Rightarrow> string \<Rightarrow> val \<Rightarrow> heap \<Rightarrow> exn option \<times> heap" where
  "lodashSet E object p v h =
     (case object of
        VRef a \<Rightarrow>
          (case lookupObj h a of
             None \<Rightarrow> (None, h)
           | Some ob \<Rightarrow> baseSetLoop E (castPath p ob) v object h)
      | _ \<Rightarrow> (None, h))"

section \<open>App.tsx: the state of the component\<close>

datatype Stage = Input | Analyzing | Results

text \<open>
  The \<open>useState\<close> cells and the \<open>useRef\<close> cell of \<open>App\<close>, and the store that holds
  the objects they refer to. \<open>originalWorkflow\<close> is \<open>VNull\<close> until a document is parsed.
\<close>

record app_state =
  stage :: Stage
  jsonInput :: string
  analysisResult :: "AnalysisResult option"
  apiError :: "string option"
  approvedFixes :: "string set"
  openSections :: "string \<rightharpoonup> bool"
  hasApiKey :: bool
  originalWorkflow :: val
  store :: heap

definition initial_state :: app_state where
  "initial_state =
     \<lparr>stage = Input, jsonInput = [], analysisResult = None, apiError = None,
      approvedFixes = {}, openSections = Map.empty, hasApiKey = False,
      originalWorkflow = VNull, store = []\<rparr>"

subsection \<open>The fix selection\<close>

text \<open>\<open>toggleFix\<close>: copy the set, delete the id if it is there, add it if not.\<close>

definition toggleFix :: "string \<Rightarrow> app_state \<Rightarrow> app_state" where
  "toggleFix errorId s =
     s\<lparr>approvedFixes :=
         (if errorId \<in> approvedFixes s then approvedFixes s - {errorId}
          else insert errorId (approvedFixes s))\<rparr>"

text \<open>\<open>approveAllFixes\<close>: nothing without a result; else the ids of the errors that
  pass the filter replace the set.\<close>

definition autoFixableErrorIds :: "AnalysisResult \<Rightarrow> string set" where
  "autoFixableErrorIds r =
     set (map error_id (filter (\<lambda>e. \<not> requiresUserInput (jsonModification e)) (errors r)))"

definition approveAllFixes :: "app_state \<Rightarrow> app_state" where
  "approveAllFixes s =
     (case analysisResult s of
        None \<Rightarrow> s
      | Some r \<Rightarrow> s\<lparr>approvedFixes := autoFixableErrorIds r\<rparr>)"

text \<open>\<open>toggleSection\<close>: \<open>!prev[id]\<close> is true for a section never opened.\<close>

definition toggleSection :: "string \<Rightarrow> app_state \<Rightarrow> app_state" where
  "toggleSection i s =
     s\<lparr>openSections := (openSections s)(i \<mapsto> (case openSections s i of None \<Rightarrow> True | Some b \<Rightarrow> \<not> b))\<rparr>"

text \<open>The button "Analyze Another Workflow" of the results view: \<open>setStage('input')\<close>.\<close>

definition analyzeAnother :: "app_state \<Rightarrow> app_state" where
  "analyzeAnother s = s\<lparr>stage := Input\<rparr>"

subsection \<open>handleAnalyze\<close>

text \<open>
  What \<open>await analyzeWorkflow(jsonInput)\<close> comes back with: the result, an \<open>Error\<close>
  with its message, or something thrown that is not an \<open>Error\<close>.
\<close>

datatype analyzer_outcome = Resolved AnalysisResult | RejectedError string | RejectedOther

text \<open>
  The part of \<open>handleAnalyze\<close> before the call of the analyzer. \<open>Inl\<close> is the state
  in which the handler has returned early; \<open>Inr\<close> is the state in which the call is
  made. \<open>originalWorkflow.current\<close> is assigned inside the \<open>try\<close>, as soon as the
  text has parsed.
\<close>

definition handleAnalyze_validate :: "engine \<Rightarrow> app_state \<Rightarrow> app_state + app_state" where
  "handleAnalyze_validate E s =
     (if trim (jsonInput s) = [] then Inl (s\<lparr>apiError := Some ''JSON input cannot be empty.''\<rparr>)
      else
        (case JSON_parse E (jsonInput s) of
           Inl _ \<Rightarrow> Inl (s\<lparr>apiError := Some ''Invalid JSON format. Please check your input.''\<rparr>)
         | Inr parsedJson \<Rightarrow>
             (case alloc parsedJson (store s) of (v, h) \<Rightarrow>
                Inr (s\<lparr>originalWorkflow := v, store := h, stage := Analyzing, apiError := None,
                       analysisResult := None, approvedFixes := {}, openSections := Map.empty\<rparr>))))"

text \<open>The part after the call: the \<open>try\<close> around \<open>await\<close> and its \<open>catch\<close>.\<close>

definition handleAnalyze_settle :: "analyzer_outcome \<Rightarrow> app_state \<Rightarrow> app_state" where
  "handleAnalyze_settle outcome s =
     (case outcome of
        Resolved result \<Rightarrow> s\<lparr>analysisResult := Some result, stage := Results\<rparr>
      | _ \<Rightarrow>
          (let errorMessage =
                 (case outcome of RejectedError m \<Rightarrow> m | _ \<Rightarrow> ''An unknown error occurred.'')
           in (if str_includes errorMessage ''Requested entity was not found''
               then s\<lparr>apiError := Some ''The selected API key is invalid or has been revoked. Please select a different key.'',
                      hasApiKey := False\<rparr>
               else s\<lparr>apiError := Some errorMessage\<rparr>)
              \<lparr>stage := Input\<rparr>))"

text \<open>
  The whole handler. The analyzer is given the text and the store, in which it creates
  the objects of its result.
\<close>

definition handleAnalyze ::
  "engine \<Rightarrow> (string \<Rightarrow> heap \<Rightarrow> analyzer_outcome \<times> heap) \<Rightarrow> app_state \<Rightarrow> app_state" where
  "handleAnalyze E analyze s =
     (case handleAnalyze_validate E s of
        Inl s' \<Rightarrow> s'
      | Inr s' \<Rightarrow>
          (case analyze (jsonInput s) (store s') of (outcome, h) \<Rightarrow>
             handleAnalyze_settle outcome (s'\<lparr>store := h\<rparr>)))"

subsection \<open>correctedWorkflowJson\<close>

text \<open>\<open>!x\<close> is false for these values.\<close>

definition truthy :: "val \<Rightarrow> bool" where
  "truthy v =
     (case v of
        VUndef \<Rightarrow> False
      | VNull \<Rightarrow> False
      | VBool b \<Rightarrow> b
      | VNum n \<Rightarrow> n \<noteq> Fin 0 \<and> n \<noteq> NegZero
      | VStr t \<Rightarrow> t \<noteq> []
      | VRef a \<Rightarrow> True)"

text \<open>\<open>JSON.parse(JSON.stringify(v))\<close>: \<open>JSON.stringify(undefined)\<close> is \<open>undefined\<close>,
  which does not parse.\<close>

definition jsonClone :: "engine \<Rightarrow> val \<Rightarrow> heap \<Rightarrow> exn + val \<times> heap" where
  "jsonClone E v h =
     (if v = VUndef then Inl SyntaxError
      else
        (case snapshot (maxDepth E) h v of
           None \<Rightarrow> Inl TypeError
         | Some j \<Rightarrow> Inr (alloc (reparse j) h)))"

text \<open>The \<open>forEach\<close> over \<open>analysisResult.errors\<close>; an exception ends it.\<close>

fun applyFixes ::
  "engine \<Rightarrow> WorkflowError list \<Rightarrow> string set \<Rightarrow> val \<Rightarrow> heap \<Rightarrow> exn option \<times> heap" where
  "applyFixes E [] approved correctedWorkflow h = (None, h)"
| "applyFixes E (e # es) approved correctedWorkflow h =
     (if error_id e \<in> approved then
        (case lodashSet E correctedWorkflow (path (jsonModification e))
                (newValue (jsonModification e)) h of
           (Some x, h') \<Rightarrow> (Some x, h')
         | (None, h') \<Rightarrow> applyFixes E es approved correctedWorkflow h')
      else applyFixes E es approved correctedWorkflow h)"

text \<open>
  The value of the \<open>useMemo\<close>: \<open>Inr None\<close> is \<open>null\<close>, \<open>Inr (Some t)\<close> the text, \<open>Inl\<close> an
  exception thrown while it is computed. The store is the one the computation leaves.
\<close>

definition correctedWorkflowJson :: "engine \<Rightarrow> app_state \<Rightarrow> (exn + string option) \<times> heap" where
  "correctedWorkflowJson E s =
     (if \<not> truthy (originalWorkflow s) then (Inr None, store s)
      else
        (case analysisResult s of
           None \<Rightarrow> (Inr None, store s)
         | Some r \<Rightarrow>
             (case jsonClone E (originalWorkflow s) (store s) of
                Inl x \<Rightarrow> (Inl x, store s)
              | Inr (correctedWorkflow, h1) \<Rightarrow>
                  (case applyFixes E (errors r) (approvedFixes s) correctedWorkflow h1 of
                     (Some x, h2) \<Rightarrow> (Inl x, h2)
                   | (None, h2) \<Rightarrow>
                       (case snapshot (maxDepth E) h2 correctedWorkflow of
                          None \<Rightarrow> (Inl TypeError, h2)
                        | Some j \<Rightarrow> (Inr (Some (stringify2 E j)), h2))))))"

section \<open>services/geminiService.ts: analyzeWorkflow\<close>

text \<open>
  What the service hands back to \<open>analyzeWorkflow\<close>: a response with its text (or
  without one), or a thrown value. Of a thrown object the \<open>catch\<close> reads \<open>message\<close>,
  \<open>status\<close> and \<open>code\<close>, on the object or on its \<open>error\<close> property if that is truthy:
  \<open>err_message\<close> is the message if it is a string, \<open>err_status\<close> and
  \<open>err_code\<close> are the texts of a truthy status and code.
\<close>

record errorDetails =
  err_message :: "string option"
  err_status :: "string option"
  err_code :: "string option"

datatype thrown = ThrownPrimitive | ThrownObject errorDetails "errorDetails option"

datatype api_response = ResponseText string | ResponseNoText | Rejected thrown

text \<open>The result as it is on the wire: every \<open>newValue\<close> is a string.\<close>

record wire_error =
  w_id :: string
  w_severity :: severity
  w_description :: string
  w_impact :: string
  w_nodeId :: "string option"
  w_recommendation :: string
  w_path :: string
  w_newValue :: string
  w_requiresUserInput :: bool

record wire_result =
  w_isValid :: bool
  w_summary :: Summary
  w_textFlow :: string
  w_nodeBreakdowns :: "NodeBreakdown list"
  w_errors :: "wire_error list"

text \<open>
  The cast \<open>as AnalysisResult\<close> checks nothing. The model reads the parsed body at the
  declared types; a body that does not have them is outside the types of the program,
  and the model reports it as the \<open>TypeError\<close> that a read from a missing part throws.
\<close>

definition field :: "json \<Rightarrow> string \<Rightarrow> json option" where
  "field j k = (case j of JObj fs \<Rightarrow> map_of fs k | _ \<Rightarrow> None)"

definition asString :: "json option \<Rightarrow> string option" where
  "asString j = (case j of Some (JStr t) \<Rightarrow> Some t | _ \<Rightarrow> None)"

definition asBool :: "json option \<Rightarrow> bool option" where
  "asBool j = (case j of Some (JBool b) \<Rightarrow> Some b | _ \<Rightarrow> None)"

definition asList :: "json option \<Rightarrow> json list option" where
  "asList j = (case j of Some (JArr xs) \<Rightarrow> Some xs | _ \<Rightarrow> None)"

definition asSeverity :: "json option \<Rightarrow> severity option" where
  "asSeverity j =
     (case asString j of
        None \<Rightarrow> None
      | Some t \<Rightarrow>
          (if t = ''critical'' then Some Critical
           else if t = ''warning'' then Some Warning
           else if t = ''info'' then Some Info else None))"

definition decodeError :: "json \<Rightarrow> wire_error option" where
  "decodeError j =
     (case (asString (field j ''id''), asSeverity (field j ''severity''),
            asString (field j ''description''), asString (field j ''impact''),
            asString (field j ''recommendation''), field j ''jsonModification'') of
        (Some i, Some sv, Some d, Some im, Some rc, Some m) \<Rightarrow>
          (case (asString (field m ''path''), asString (field m ''newValue''),
                 asBool (field m ''requiresUserInput'')) of
             (Some p, Some nv, Some ru) \<Rightarrow>
               (if field j ''nodeId'' \<noteq> None \<and> asString (field j ''nodeId'') = None then None
                else Some \<lparr>w_id = i, w_severity = sv, w_description = d, w_impact = im,
                           w_nodeId = asString (field j ''nodeId''), w_recommendation = rc,
                           w_path = p, w_newValue = nv, w_requiresUserInput = ru\<rparr>)
           | _ \<Rightarrow> None)
      | _ \<Rightarrow> None)"

definition decodeSummary :: "json \<Rightarrow> Summary option" where
  "decodeSummary j =
     (case (asString (field j ''accomplishment''), asString (field j ''trigger''),
            asString (field j ''finalOutcome''), asString (field j ''analogy'')) of
        (Some a, Some t, Some f, Some an) \<Rightarrow>
          Some \<lparr>accomplishment = a, trigger = t, finalOutcome = f, analogy = an\<rparr>
      | _ \<Rightarrow> None)"

definition decodeNodeBreakdown :: "json \<Rightarrow> NodeBreakdown option" where
  "decodeNodeBreakdown j =
     (case (asString (field j ''nodeId''), asString (field j ''nodeName''),
            asString (field j ''purpose''), asString (field j ''requiredInputs''),
            asString (field j ''configurationNeeds''), asString (field j ''output''),
            asString (field j ''visualMetaphor'')) of
        (Some a, Some b, Some c, Some d, Some e, Some f, Some g) \<Rightarrow>
          Some \<lparr>nb_nodeId = a, nodeName = b, purpose = c, requiredInputs = d,
                configurationNeeds = e, nb_output = f, visualMetaphor = g\<rparr>
      | _ \<Rightarrow> None)"

definition decodeResult :: "json \<Rightarrow> wire_result option" where
  "decodeResult j =
     (case (asBool (field j ''isValid''), Option.bind (field j ''summary'') decodeSummary,
            asString (field j ''textFlow''),
            Option.bind (asList (field j ''nodeBreakdowns'')) (\<lambda>xs. those (map decodeNodeBreakdown xs)),
            Option.bind (asList (field j ''errors'')) (\<lambda>xs. those (map decodeError xs))) of
        (Some v, Some sm, Some tf, Some nbs, Some es) \<Rightarrow>
          Some \<lparr>w_isValid = v, w_summary = sm, w_textFlow = tf, w_nodeBreakdowns = nbs,
                w_errors = es\<rparr>
      | _ \<Rightarrow> None)"

text \<open>\<open>resultText.replace(/^```json\s*|```$/g, '')\<close>.\<close>

definition fence :: string where
  "fence = replicate 3 (CHR 0x60)"

definition endsWith :: "string \<Rightarrow> string \<Rightarrow> bool" where
  "endsWith s t \<longleftrightarrow> length t \<le> length s \<and> drop (length s - length t) s = t"

definition stripFence :: "string \<Rightarrow> string" where
  "stripFence t =
     (let t1 = (if startsWith t (fence @ ''json'') then dropWhile isWhiteSpace (drop 7 t) else t)
      in if endsWith t1 fence then take (length t1 - 3) t1 else t1)"

text \<open>
  The body of the \<open>forEach\<close> that aligns the response with the types: an empty
  \<open>nodeId\<close> becomes \<open>undefined\<close>, and \<open>newValue\<close> becomes what it parses to; if it does
  not parse, the \<open>catch\<close> is empty and the string stays. The objects of a parsed value
  are new objects of the store.
\<close>

definition postProcessError :: "engine \<Rightarrow> wire_error \<Rightarrow> heap \<Rightarrow> WorkflowError \<times> heap" where
  "postProcessError E w h =
     (case (case JSON_parse E (w_newValue w) of
              Inl _ \<Rightarrow> (VStr (w_newValue w), h)
            | Inr j \<Rightarrow> alloc j h) of
        (v, h') \<Rightarrow>
          (\<lparr>error_id = w_id w, severity = w_severity w, description = w_description w,
            impact = w_impact w,
            nodeId = (if w_nodeId w = Some [] then None else w_nodeId w),
            recommendation = w_recommendation w,
            jsonModification = \<lparr>path = w_path w, newValue = v,
                                 requiresUserInput = w_requiresUserInput w\<rparr>\<rparr>, h'))"

fun postProcessErrors :: "engine \<Rightarrow> wire_error list \<Rightarrow> heap \<Rightarrow> WorkflowError list \<times> heap" where
  "postProcessErrors E [] h = ([], h)"
| "postProcessErrors E (w # ws) h =
     (case postProcessError E w h of (e, h1) \<Rightarrow>
        (case postProcessErrors E ws h1 of (es, h2) \<Rightarrow> (e # es, h2)))"

text \<open>The message that the \<open>catch\<close> of \<open>analyzeWorkflow\<close> builds from what was thrown.\<close>

definition geminiPrefix :: string where
  "geminiPrefix = ''Error analyzing workflow with Gemini: ''"

definition caughtMessage :: "thrown \<Rightarrow> string" where
  "caughtMessage t =
     (case t of
        ThrownPrimitive \<Rightarrow> ''An unexpected error occurred while analyzing the workflow.''
      | ThrownObject own nested \<Rightarrow>
          (let details = (case nested of None \<Rightarrow> own | Some d \<Rightarrow> d)
           in if err_message details \<noteq> None \<and> err_message details \<noteq> Some []
              then geminiPrefix @ the (err_message details)
              else
                (case err_status details of
                   Some st \<Rightarrow>
                     geminiPrefix @ st @ '' (Code: ''
                       @ (case err_code details of None \<Rightarrow> ''N/A'' | Some c \<Rightarrow> c) @ '')''
                 | None \<Rightarrow>
                     (case err_message own of
                        Some m \<Rightarrow> m
                      | None \<Rightarrow> ''An unexpected error occurred while analyzing the workflow.''))))"

definition errorObject :: "string \<Rightarrow> thrown" where
  "errorObject m = ThrownObject \<lparr>err_message = Some m, err_status = None, err_code = None\<rparr> None"

text \<open>
  \<open>analyzeWorkflow\<close>, given the API key of the environment and what the service answers.
  Whatever is thrown inside the \<open>try\<close> leaves as an \<open>Error\<close> with the message of the
  \<open>catch\<close>.
\<close>

definition analyzeWorkflow ::
  "engine \<Rightarrow> string option \<Rightarrow> api_response \<Rightarrow> heap \<Rightarrow> analyzer_outcome \<times> heap" where
  "analyzeWorkflow E apiKey response h =
     (if apiKey = None \<or> apiKey = Some [] then
        (RejectedError ''API key is not configured. Please ensure the API_KEY environment variable is set.'', h)
      else
        (case response of
           Rejected t \<Rightarrow> (RejectedError (caughtMessage t), h)
         | ResponseNoText \<Rightarrow>
             (RejectedError (caughtMessage (errorObject (typeErrorMessage E))), h)
         | ResponseText resultText \<Rightarrow>
             (case JSON_parse E (stripFence (trim resultText)) of
                Inl m \<Rightarrow> (RejectedError (caughtMessage (errorObject m)), h)
              | Inr j \<Rightarrow>
                  (case decodeResult j of
                     None \<Rightarrow> (RejectedError (caughtMessage (errorObject (typeErrorMessage E))), h)
                   | Some w \<Rightarrow>
                       (case postProcessErrors E (w_errors w) h of (es, h') \<Rightarrow>
                          (Resolved \<lparr>isValid = w_isValid w, summary = w_summary w,
                                     textFlow = w_textFlow w,
                                     nodeBreakdowns = w_nodeBreakdowns w, errors = es\<rparr>, h'))))))"

section \<open>The states of the session\<close>

text \<open>
  The states that the component can be in: the initial one, and what the effects and
  handlers of \<open>App\<close> make of a state. The analyzer is \<open>analyzeWorkflow\<close>, with any key
  and any answer of the service; \<open>recompute\<close> is a run of the \<open>useMemo\<close>, which leaves
  its objects in the store.
\<close>

inductive reachable :: "engine \<Rightarrow> app_state \<Rightarrow> bool" for E :: engine where
  start: "reachable E initial_state"
| checkApiKey: "reachable E s \<Longrightarrow> reachable E (s\<lparr>hasApiKey := k\<rparr>)"
| setJsonInput: "reachable E s \<Longrightarrow> reachable E (s\<lparr>jsonInput := t\<rparr>)"
| analyze: "reachable E s \<Longrightarrow>
            reachable E (handleAnalyze E (\<lambda>t. analyzeWorkflow E key response) s)"
| toggle: "reachable E s \<Longrightarrow> reachable E (toggleFix i s)"
| approveAll: "reachable E s \<Longrightarrow> reachable E (approveAllFixes s)"
| another: "reachable E s \<Longrightarrow> reachable E (analyzeAnother s)"
| expand: "reachable E s \<Longrightarrow> reachable E (toggleSection i s)"
| selectKeyFailed:
    "reachable E s \<Longrightarrow>
     reachable E (s\<lparr>apiError := Some ''Could not open the API key selection dialog.''\<rparr>)"
| recompute: "reachable E s \<Longrightarrow> reachable E (s\<lparr>store := snd (correctedWorkflowJson E s)\<rparr>)"

section \<open>Trees and the store\<close>

text \<open>The depth of a tree: the number of arrays and objects on its longest branch.\<close>

fun depth :: "json \<Rightarrow> nat" where
  "depth (JArr xs) = Suc (foldr max (map depth xs) 0)"
| "depth (JObj fs) = Suc (foldr max (map (\<lambda>f. depth (snd f)) fs) 0)"
| "depth j = 0"

text \<open>
  A value of the store holds the \<open>newValue\<close> of a text of the wire: the raw string if the
  text does not parse, and else a value that reads back as the tree the text parses to.
\<close>

definition storedAs :: "engine \<Rightarrow> heap \<Rightarrow> string \<Rightarrow> val \<Rightarrow> bool" where
  "storedAs E h t v =
     (case JSON_parse E t of
        Inl _ \<Rightarrow> v = VStr t
      | Inr j \<Rightarrow> (\<forall>d \<ge> depth j. snapshot d h v = Some j))"

text \<open>
  The addresses a value and an object refer to, and regions of the store: a set of
  addresses is closed when the objects at its addresses refer to its addresses only.
\<close>

definition valRefs :: "val \<Rightarrow> addr set" where
  "valRefs v = (case v of VRef a \<Rightarrow> {a} | _ \<Rightarrow> {})"

definition refsOf :: "obj \<Rightarrow> addr set" where
  "refsOf ob =
     (case ob of
        OObj fs \<Rightarrow> (\<Union>f \<in> set fs. valRefs (snd f))
      | OArr es xs \<Rightarrow> (\<Union>e \<in> set es. valRefs e) \<union> (\<Union>f \<in> set xs. valRefs (snd f)))"

definition closedIn :: "heap \<Rightarrow> addr set \<Rightarrow> bool" where
  "closedIn h C \<longleftrightarrow> (\<forall>a \<in> C. a < length h \<longrightarrow> refsOf (h ! a) \<subseteq> C)"

text \<open>
  The state keeps the document and the proposed values apart: a closed region holds the
  objects of the original document, another one the objects of every \<open>newValue\<close>.
\<close>

definition separated :: "app_state \<Rightarrow> bool" where
  "separated s \<longleftrightarrow>
     (\<exists>R N. closedIn (store s) R \<and> valRefs (originalWorkflow s) \<subseteq> R
        \<and> R \<subseteq> {..<length (store s)} \<and> closedIn (store s) N
        \<and> (\<forall>r. analysisResult s = Some r \<longrightarrow>
              (\<forall>e \<in> set (errors r). valRefs (newValue (jsonModification e)) \<subseteq> N))
        \<and> R \<inter> N = {})"




section \<open>A reference engine\<close>

text \<open>
  An engine to run the model on concrete inputs: \<open>JSON.parse\<close> by the grammar of
  ECMA-404, on texts whose characters and \<open>\\u\<close> escapes are below 256. A number
  literal is taken as the longest run of the characters of number literals, which must
  then be one literal: what may follow a number in a JSON text is none of them.
\<close>

subsection \<open>Tokens\<close>

datatype token = TLBrace | TRBrace | TLBracket | TRBracket | TColon | TComma | TValue json

definition isJsonWhiteSpace :: "char \<Rightarrow> bool" where
  "isJsonWhiteSpace c \<longleftrightarrow> c \<in> set [CHR 0x09, CHR 0x0A, CHR 0x0D, CHR 0x20]"

definition hexValue :: "char \<Rightarrow> nat option" where
  "hexValue c =
     (if isDigit c then Some (of_char c - 48)
      else if 97 \<le> (of_char c :: nat) \<and> (of_char c :: nat) \<le> 102 then Some (of_char c - 87)
      else if 65 \<le> (of_char c :: nat) \<and> (of_char c :: nat) \<le> 70 then Some (of_char c - 55)
      else None)"

definition unescape :: "char \<Rightarrow> char option" where
  "unescape e =
     (if e = CHR 0x22 then Some (CHR 0x22)
      else if e = CHR 0x5C then Some (CHR 0x5C)
      else if e = CHR ''/'' then Some (CHR ''/'')
      else if e = CHR ''b'' then Some (CHR 0x08)
      else if e = CHR ''f'' then Some (CHR 0x0C)
      else if e = CHR ''n'' then Some (CHR 0x0A)
      else if e = CHR ''r'' then Some (CHR 0x0D)
      else if e = CHR ''t'' then Some (CHR 0x09)
      else None)"

definition hexValue4 :: "string \<Rightarrow> nat option" where
  "hexValue4 ds =
     (if list_all (\<lambda>c. hexValue c \<noteq> None) ds
      then Some (foldl (\<lambda>n c. 16 * n + the (hexValue c)) 0 ds) else None)"

fun lexEscape :: "string \<Rightarrow> (char \<times> string) option" where
  "lexEscape [] = None"
| "lexEscape (e # cs) =
     (if e = CHR ''u'' then
        (if length cs < 4 then None
         else
           (case hexValue4 (take 4 cs) of
              None \<Rightarrow> None
            | Some n \<Rightarrow> if n < 256 then Some (char_of n, drop 4 cs) else None))
      else map_option (\<lambda>ch. (ch, cs)) (unescape e))"

lemma lexEscape_shorter: "lexEscape s = Some (ch, r) \<Longrightarrow> length r < length s"
  by (cases s) (auto split: if_splits option.splits)

function lexString :: "string \<Rightarrow> string \<Rightarrow> (string \<times> string) option" where
  "lexString acc [] = None"
| "lexString acc (c # cs) =
     (if c = CHR 0x22 then Some (rev acc, cs)
      else if c = CHR 0x5C then
        (case lexEscape cs of
           None \<Rightarrow> None
         | Some (ch, rest) \<Rightarrow> lexString (ch # acc) rest)
      else if (of_char c :: nat) < 32 then None
      else lexString (c # acc) cs)"
  by pat_completeness auto
termination
  by (relation "measure (\<lambda>(acc, s). length s)") (auto dest: lexEscape_shorter)

definition isNumberChar :: "char \<Rightarrow> bool" where
  "isNumberChar c \<longleftrightarrow> isDigit c \<or> c \<in> set ''-+.eE''"

definition numberValue :: "string \<Rightarrow> jsnum option" where
  "numberValue s =
     (let (neg, s1) = (if startsWith s ''-'' then (True, tl s) else (False, s));
          (ds, s2) = lexDigits s1;
          (fs, s3) = (if startsWith s2 ''.'' then lexDigits (tl s2) else (''0'', s2));
          hasExp = (startsWith s3 ''e'' \<or> startsWith s3 ''E'');
          s4 = (if hasExp then tl s3 else s3);
          (eneg, s5) = (if hasExp \<and> startsWith s4 ''-'' then (True, tl s4)
                        else if hasExp \<and> startsWith s4 ''+'' then (False, tl s4)
                        else (False, s4));
          (es, s6) = (if hasExp then lexDigits s5 else (''0'', s5));
          m = of_nat (natOfDigits ds) + of_nat (natOfDigits fs) / 10 ^ length fs;
          q = (if eneg then m / 10 ^ natOfDigits es else m * 10 ^ natOfDigits es)
      in if ds = [] \<or> (length ds > 1 \<and> hd ds = CHR ''0'') \<or> fs = [] \<or> es = [] \<or> s6 \<noteq> []
         then None
         else Some (if neg \<and> q = 0 then NegZero else Fin (if neg then - q else q)))"

lemma lexString_shorter: "lexString acc s = Some (x, r) \<Longrightarrow> length r < length s"
proof (induction acc s rule: lexString.induct)
  case (1 acc)
  then show ?case by simp
next
  case (2 acc c cs)
  show ?case
  proof (cases "c = CHR 0x22")
    case True
    with 2 show ?thesis by simp
  next
    case notq: False
    show ?thesis
    proof (cases "c = CHR 0x5C")
      case True
      with notq 2(3) obtain ch rest where
        e: "lexEscape cs = Some (ch, rest)" and l: "lexString (ch # acc) rest = Some (x, r)"
        by (auto split: option.splits)
      from 2(1)[OF notq True e refl l] lexEscape_shorter[OF e] show ?thesis by simp
    next
      case False
      with notq 2(3) have c: "\<not> (of_char c :: nat) < 32" and l: "lexString (c # acc) cs = Some (x, r)"
        by (auto split: if_splits)
      from 2(2)[OF notq False c l] show ?thesis by simp
    qed
  qed
qed

function lex :: "string \<Rightarrow> token list option" where
  "lex [] = Some []"
| "lex (c # cs) =
     (if isJsonWhiteSpace c then lex cs
      else if c = CHR ''{'' then map_option (Cons TLBrace) (lex cs)
      else if c = CHR ''}'' then map_option (Cons TRBrace) (lex cs)
      else if c = CHR ''['' then map_option (Cons TLBracket) (lex cs)
      else if c = CHR '']'' then map_option (Cons TRBracket) (lex cs)
      else if c = CHR '':'' then map_option (Cons TColon) (lex cs)
      else if c = CHR '','' then map_option (Cons TComma) (lex cs)
      else if c = CHR 0x22 then
        (case lexString [] cs of
           None \<Rightarrow> None
         | Some (str, rest) \<Rightarrow> map_option (Cons (TValue (JStr str))) (lex rest))
      else if c = CHR ''-'' \<or> isDigit c then
        (case numberValue (c # takeWhile isNumberChar cs) of
           None \<Rightarrow> None
         | Some n \<Rightarrow> map_option (Cons (TValue (JNum n))) (lex (dropWhile isNumberChar cs)))
      else if startsWith (c # cs) ''null'' then map_option (Cons (TValue JNull)) (lex (drop 3 cs))
      else if startsWith (c # cs) ''true'' then map_option (Cons (TValue (JBool True))) (lex (drop 3 cs))
      else if startsWith (c # cs) ''false'' then map_option (Cons (TValue (JBool False))) (lex (drop 4 cs))
      else None)"
  by pat_completeness auto
termination
  by (relation "measure length") (auto dest: lexString_shorter simp: length_dropWhile_le less_Suc_eq_le)

subsection \<open>The parser: a stack of open arrays and objects\<close>

datatype frame = FArr "json list" | FObj "(string \<times> json) list" "string option"

datatype expect = ExpValue | ExpValueOrClose | ExpKeyOrClose | ExpKey | ExpColon | ExpCommaOrClose | ExpEnd json

fun deliver :: "json \<Rightarrow> frame list \<Rightarrow> (frame list \<times> expect) option" where
  "deliver v [] = Some ([], ExpEnd v)"
| "deliver v (FArr xs # st) = Some (FArr (xs @ [v]) # st, ExpCommaOrClose)"
| "deliver v (FObj fs (Some k) # st) = Some (FObj (putProperty k v fs) None # st, ExpCommaOrClose)"
| "deliver v (FObj fs None # st) = None"

fun openValue :: "token \<Rightarrow> frame list \<Rightarrow> (frame list \<times> expect) option" where
  "openValue (TValue v) st = deliver v st"
| "openValue TLBracket st = Some (FArr [] # st, ExpValueOrClose)"
| "openValue TLBrace st = Some (FObj [] None # st, ExpKeyOrClose)"
| "openValue _ st = None"

fun openKey :: "token \<Rightarrow> frame list \<Rightarrow> (frame list \<times> expect) option" where
  "openKey (TValue (JStr k)) (FObj fs None # st) = Some (FObj fs (Some k) # st, ExpColon)"
| "openKey _ _ = None"

fun step :: "token \<Rightarrow> frame list \<Rightarrow> expect \<Rightarrow> (frame list \<times> expect) option" where
  "step t st ExpValue = openValue t st"
| "step t st ExpValueOrClose =
     (case (t, st) of (TRBracket, FArr xs # st') \<Rightarrow> deliver (JArr xs) st' | _ \<Rightarrow> openValue t st)"
| "step t st ExpKeyOrClose =
     (case (t, st) of (TRBrace, FObj fs None # st') \<Rightarrow> deliver (JObj fs) st' | _ \<Rightarrow> openKey t st)"
| "step t st ExpKey = openKey t st"
| "step t st ExpColon = (case t of TColon \<Rightarrow> Some (st, ExpValue) | _ \<Rightarrow> None)"
| "step t st ExpCommaOrClose =
     (case (t, st) of
        (TComma, FArr xs # st') \<Rightarrow> Some (st, ExpValue)
      | (TRBracket, FArr xs # st') \<Rightarrow> deliver (JArr xs) st'
      | (TComma, FObj fs None # st') \<Rightarrow> Some (st, ExpKey)
      | (TRBrace, FObj fs None # st') \<Rightarrow> deliver (JObj fs) st'
      | _ \<Rightarrow> None)"
| "step t st (ExpEnd v) = None"

fun parseTokens :: "token list \<Rightarrow> frame list \<Rightarrow> expect \<Rightarrow> json option" where
  "parseTokens [] st e = (case e of ExpEnd v \<Rightarrow> Some v | _ \<Rightarrow> None)"
| "parseTokens (t # ts) st e =
     (case step t st e of None \<Rightarrow> None | Some (st', e') \<Rightarrow> parseTokens ts st' e')"

definition parseJSON :: "string \<Rightarrow> string + json" where
  "parseJSON s =
     (case lex s of
        None \<Rightarrow> Inl ''Unexpected token''
      | Some ts \<Rightarrow>
          (case parseTokens ts [] ExpValue of
             None \<Rightarrow> Inl ''Unexpected token''
           | Some v \<Rightarrow> Inr v))"


subsection \<open>Numbers, and the engine\<close>

text \<open>A finite number in decimal notation, with at most twenty fractional digits:
  what \<open>Number.prototype.toString\<close> prints for the numbers of everyday documents.\<close>

definition digitChar :: "nat \<Rightarrow> char" where
  "digitChar n = ''0123456789'' ! (n mod 10)"

fun showNat :: "nat \<Rightarrow> string" where
  "showNat n = (if n < 10 then [digitChar n] else showNat (n div 10) @ [digitChar n])"

fun showFraction :: "nat \<Rightarrow> rat \<Rightarrow> string" where
  "showFraction 0 r = []"
| "showFraction (Suc n) r =
     (if r = 0 then []
      else digitChar (nat \<lfloor>r * 10\<rfloor>) # showFraction n (r * 10 - of_int \<lfloor>r * 10\<rfloor>))"

definition showNumber :: "rat \<Rightarrow> string" where
  "showNumber q =
     (let a = \<bar>q\<bar>; f = a - of_int \<lfloor>a\<rfloor>
      in (if q < 0 then ''-'' else []) @ showNat (nat \<lfloor>a\<rfloor>)
         @ (if f = 0 then [] else ''.'' @ showFraction 20 f))"

text \<open>The length of an array from a number, \<open>null\<close> or a boolean; the reference engine
  throws for a string or an object, which a real engine converts first.\<close>

definition referenceLength :: "heap \<Rightarrow> val \<Rightarrow> nat option" where
  "referenceLength h v =
     (case v of
        VNull \<Rightarrow> Some 0
      | VBool b \<Rightarrow> Some (if b then 1 else 0)
      | VNum (Fin q) \<Rightarrow>
          (if 0 \<le> q \<and> q < 2 ^ 32 \<and> of_int \<lfloor>q\<rfloor> = q then Some (nat \<lfloor>q\<rfloor>) else None)
      | VNum NegZero \<Rightarrow> Some 0
      | _ \<Rightarrow> None)"

definition referenceEngine :: engine where
  "referenceEngine =
     \<lparr>JSON_parse = parseJSON, numberToString = showNumber, toArrayLength = referenceLength,
      maxDepth = 100, strictMode = False,
      typeErrorMessage = ''Cannot read properties of undefined''\<rparr>"

section \<open>Example inputs\<close>

definition mkError :: "string \<Rightarrow> string \<Rightarrow> val \<Rightarrow> bool \<Rightarrow> WorkflowError" where
  "mkError i p v r =
     \<lparr>error_id = i, severity = Warning, description = [], impact = [], nodeId = None,
      recommendation = [],
      jsonModification = \<lparr>path = p, newValue = v, requiresUserInput = r\<rparr>\<rparr>"

definition mkResult :: "WorkflowError list \<Rightarrow> AnalysisResult" where
  "mkResult es =
     \<lparr>isValid = False,
      summary = \<lparr>accomplishment = [], trigger = [], finalOutcome = [], analogy = []\<rparr>,
      textFlow = [], nodeBreakdowns = [], errors = es\<rparr>"

text \<open>The state after the analysis of a document: the text is parsed by
  \<open>handleAnalyze\<close>, and the analyzer answers with the errors given.\<close>

definition analyzed :: "string \<Rightarrow> WorkflowError list \<Rightarrow> app_state" where
  "analyzed doc es =
     handleAnalyze referenceEngine (\<lambda>t h. (Resolved (mkResult es), h))
       (initial_state\<lparr>jsonInput := doc, hasApiKey := True\<rparr>)"

text \<open>A results view with one fix that is automatic and one that needs the user.\<close>

definition selection_example :: app_state where
  "selection_example =
     analyzed ''{}''
       [mkError ''e1'' ''name'' (VStr ''Bot'') False,
        mkError ''e2'' ''credentials.apiKey'' (VStr ''<PASTE_YOUR_SECRET_API_KEY_HERE>'') True]"

text \<open>An analyzer whose service rejects the key.\<close>

definition revokedKeyAnalyzer :: "string \<Rightarrow> heap \<Rightarrow> analyzer_outcome \<times> heap" where
  "revokedKeyAnalyzer t h =
     analyzeWorkflow referenceEngine (Some ''key'')
       (Rejected (errorObject ''Requested entity was not found.'')) h"

text \<open>An engine whose parser accepts every text.\<close>

definition lenientEngine :: engine where
  "lenientEngine = referenceEngine\<lparr>JSON_parse := (\<lambda>t. Inr JNull)\<rparr>"

text \<open>A response of the service, in a code fence, with a \<open>newValue\<close> that parses and
  one that does not.\<close>

definition response_body :: string where
  \<open>response_body =
     ''{"isValid": false, "summary": {"accomplishment": "", "trigger": "", "finalOutcome": "", "analogy": ""}, ''
     @ ''"textFlow": "", "nodeBreakdowns": [], "errors": [''
     @ ''{"id": "e1", "severity": "info", "description": "", "impact": "", "nodeId": "", "recommendation": "", ''
     @ ''"jsonModification": {"path": "tags", "newValue": "[1]", "requiresUserInput": false}}, ''
     @ ''{"id": "e2", "severity": "critical", "description": "", "impact": "", "nodeId": "n1", "recommendation": "", ''
     @ ''"jsonModification": {"path": "key", "newValue": "<KEY>", "requiresUserInput": true}}]}''\<close>

definition response_example :: string where
  "response_example = fence @ ''json'' @ [CHR 0x0A] @ response_body @ [CHR 0x0A] @ fence @ [CHR 0x0A]"

definition wire_example :: wire_result where
  "wire_example =
     \<lparr>w_isValid = False,
      w_summary = \<lparr>accomplishment = [], trigger = [], finalOutcome = [], analogy = []\<rparr>,
      w_textFlow = [], w_nodeBreakdowns = [],
      w_errors =
        [\<lparr>w_id = ''e1'', w_severity = Info, w_description = [], w_impact = [], w_nodeId = Some [],
          w_recommendation = [], w_path = ''tags'', w_newValue = ''[1]'', w_requiresUserInput = False\<rparr>,
         \<lparr>w_id = ''e2'', w_severity = Critical, w_description = [], w_impact = [], w_nodeId = Some ''n1'',
          w_recommendation = [], w_path = ''key'', w_newValue = ''<KEY>'', w_requiresUserInput = True\<rparr>]\<rparr>"

text \<open>A document with a negative zero, analyzed, with no fix approved.\<close>

definition unchanged_example :: app_state where
  \<open>unchanged_example = analyzed ''{"a": -0, "b": [1]}'' [mkError ''e1'' ''a'' (VNum (Fin 2)) False]\<close>



text \<open>A document analyzed through \<open>analyzeWorkflow\<close>, with the fix accepted whose
  \<open>newValue\<close> is an array of the store.\<close>

definition patched_example :: app_state where
  \<open>patched_example =
     toggleFix ''e1''
       (handleAnalyze referenceEngine
          (\<lambda>t. analyzeWorkflow referenceEngine (Some ''key'') (ResponseText response_example))
          (initial_state\<lparr>jsonInput := ''{"tags": []}'', hasApiKey := True\<rparr>))\<close>

section \<open>Evaluation of the examples\<close>

lemmas lex_simps = isJsonWhiteSpace_def isDigit_def startsWith_def isNumberChar_def
  numberValue_def lexDigits_def natOfDigits_def digitValue_def unescape_def

lemmas parse_simps = parseJSON_def putProperty_def isArrayIndex_def isUint_def lex_simps


lemma strip_example: "stripFence (trim response_example) = response_body @ [CHR 0x0A]"
  by (simp add: response_example_def response_body_def stripFence_def trim_def fence_def
       isWhiteSpace_def startsWith_def endsWith_def)

lemma decode_example:
  "\<exists>j. parseJSON (response_body @ [CHR 0x0A]) = Inr j \<and> decodeResult j = Some wire_example"
  by (simp add: response_body_def parse_simps decodeResult_def decodeSummary_def decodeError_def
       field_def asString_def asBool_def asList_def asSeverity_def wire_example_def)

lemma parse_values:
  "parseJSON ''[1]'' = Inr (JArr [JNum (Fin 1)])" "parseJSON ''<KEY>'' = Inl ''Unexpected token''"
  by (simp_all add: parse_simps)

lemma unfold_snapshot:
  "0 < d \<Longrightarrow> snapshot d h (VRef a) =
     (case lookupObj h a of
        None \<Rightarrow> None
      | Some (OArr es xs) \<Rightarrow> map_option JArr (those (map (snapshot (d - 1) h) es))
      | Some (OObj fs) \<Rightarrow>
          map_option JObj
            (those (map (\<lambda>f. map_option (Pair (fst f)) (snapshot (d - 1) h (snd f)))
                        (filter (\<lambda>f. snd f \<noteq> VUndef) fs))))"
  by (cases d) (simp_all split: option.split obj.split)

lemma unchanged_example_eval:
  "unchanged_example =
     initial_state\<lparr>jsonInput := [CHR ''{'', CHR 0x22, CHR ''a'', CHR 0x22, CHR '':'', CHR '' '', CHR ''-'', CHR ''0'', CHR '','', CHR '' '', CHR 0x22, CHR ''b'', CHR 0x22, CHR '':'', CHR '' '', CHR ''['', CHR ''1'', CHR '']'', CHR ''}''],
       hasApiKey := True, originalWorkflow := VRef 1,
       store := [OArr [VNum (Fin 1)] [], OObj [(''a'', VNum NegZero), (''b'', VRef 0)]], stage := Results,
       analysisResult := Some (mkResult [mkError ''e1'' ''a'' (VNum (Fin 2)) False])\<rparr>"
  by (simp add: unchanged_example_def analyzed_def handleAnalyze_def handleAnalyze_validate_def
        handleAnalyze_settle_def initial_state_def referenceEngine_def trim_def isWhiteSpace_def
        parse_simps)




lemma analyze_example_eval:
  "analyzeWorkflow referenceEngine (Some ''key'') (ResponseText response_example) h
     = (Resolved
          \<lparr>isValid = False,
           summary = \<lparr>accomplishment = [], trigger = [], finalOutcome = [], analogy = []\<rparr>,
           textFlow = [], nodeBreakdowns = [],
           errors =
             [\<lparr>error_id = ''e1'', severity = Info, description = [], impact = [], nodeId = None,
               recommendation = [],
               jsonModification = \<lparr>path = ''tags'', newValue = VRef (length h), requiresUserInput = False\<rparr>\<rparr>,
              \<lparr>error_id = ''e2'', severity = Critical, description = [], impact = [], nodeId = Some ''n1'',
               recommendation = [],
               jsonModification = \<lparr>path = ''key'', newValue = VStr ''<KEY>'', requiresUserInput = True\<rparr>\<rparr>]\<rparr>,
        h @ [OArr [VNum (Fin 1)] []])"
proof -
  from decode_example obtain j where
    j: "parseJSON (response_body @ [CHR 0x0A]) = Inr j" "decodeResult j = Some wire_example"
    by auto
  have p: "postProcessErrors referenceEngine (w_errors wire_example) h
      = ([\<lparr>error_id = ''e1'', severity = Info, description = [], impact = [], nodeId = None,
            recommendation = [],
            jsonModification = \<lparr>path = ''tags'', newValue = VRef (length h), requiresUserInput = False\<rparr>\<rparr>,
          \<lparr>error_id = ''e2'', severity = Critical, description = [], impact = [], nodeId = Some ''n1'',
            recommendation = [],
            jsonModification = \<lparr>path = ''key'', newValue = VStr ''<KEY>'', requiresUserInput = True\<rparr>\<rparr>],
         h @ [OArr [VNum (Fin 1)] []])"
    by (simp add: wire_example_def postProcessError_def referenceEngine_def parse_values)
  have "JSON_parse referenceEngine (stripFence (trim response_example)) = Inr j"
    using j(1) by (simp add: referenceEngine_def strip_example)
  with j(2) p show ?thesis
    by (simp add: analyzeWorkflow_def wire_example_def)
qed

lemma validate_tags:
  \<open>handleAnalyze_validate referenceEngine (initial_state\<lparr>jsonInput := ''{"tags": []}'', hasApiKey := True\<rparr>)
     = Inr (initial_state\<lparr>jsonInput := ''{"tags": []}'', hasApiKey := True, originalWorkflow := VRef 1,
              store := [OArr [] [], OObj [(''tags'', VRef 0)]], stage := Analyzing\<rparr>)\<close>
  by (simp add: handleAnalyze_validate_def initial_state_def referenceEngine_def trim_def
        isWhiteSpace_def parse_simps)

lemma patched_example_eval:
  "patched_example =
     initial_state\<lparr>jsonInput := [CHR ''{'', CHR 0x22, CHR ''t'', CHR ''a'', CHR ''g'', CHR ''s'', CHR 0x22, CHR '':'', CHR '' '', CHR ''['', CHR '']'', CHR ''}''],
       hasApiKey := True, originalWorkflow := VRef 1,
       store := [OArr [] [], OObj [(''tags'', VRef 0)], OArr [VNum (Fin 1)] []], stage := Results,
       analysisResult := Some
          \<lparr>isValid = False,
           summary = \<lparr>accomplishment = [], trigger = [], finalOutcome = [], analogy = []\<rparr>,
           textFlow = [], nodeBreakdowns = [],
           errors =
             [\<lparr>error_id = ''e1'', severity = Info, description = [], impact = [], nodeId = None,
               recommendation = [],
               jsonModification = \<lparr>path = ''tags'', newValue = VRef 2, requiresUserInput = False\<rparr>\<rparr>,
              \<lparr>error_id = ''e2'', severity = Critical, description = [], impact = [], nodeId = Some ''n1'',
               recommendation = [],
               jsonModification = \<lparr>path = ''key'', newValue = VStr ''<KEY>'', requiresUserInput = True\<rparr>\<rparr>]\<rparr>,
       approvedFixes := {''e1''}\<rparr>"
proof -
  have "handleAnalyze referenceEngine
          (\<lambda>t. analyzeWorkflow referenceEngine (Some ''key'') (ResponseText response_example))
          (initial_state\<lparr>jsonInput := [CHR ''{'', CHR 0x22, CHR ''t'', CHR ''a'', CHR ''g'', CHR ''s'', CHR 0x22, CHR '':'', CHR '' '', CHR ''['', CHR '']'', CHR ''}''], hasApiKey := True\<rparr>)
        = initial_state\<lparr>jsonInput := [CHR ''{'', CHR 0x22, CHR ''t'', CHR ''a'', CHR ''g'', CHR ''s'', CHR 0x22, CHR '':'', CHR '' '', CHR ''['', CHR '']'', CHR ''}''],
       hasApiKey := True, originalWorkflow := VRef 1,
       store := [OArr [] [], OObj [(''tags'', VRef 0)], OArr [VNum (Fin 1)] []], stage := Results,
       analysisResult := Some
          \<lparr>isValid = False,
           summary = \<lparr>accomplishment = [], trigger = [], finalOutcome = [], analogy = []\<rparr>,
           textFlow = [], nodeBreakdowns = [],
           errors =
             [\<lparr>error_id = ''e1'', severity = Info, description = [], impact = [], nodeId = None,
               recommendation = [],
               jsonModification = \<lparr>path = ''tags'', newValue = VRef 2, requiresUserInput = False\<rparr>\<rparr>,
              \<lparr>error_id = ''e2'', severity = Critical, description = [], impact = [], nodeId = Some ''n1'',
               recommendation = [],
               jsonModification = \<lparr>path = ''key'', newValue = VStr ''<KEY>'', requiresUserInput = True\<rparr>\<rparr>]\<rparr>\<rparr>"
    by (simp add: handleAnalyze_def validate_tags analyze_example_eval handleAnalyze_settle_def)
  then show ?thesis
    by (simp add: patched_example_def toggleFix_def initial_state_def)
qed

lemma patched_example_text:
  "fst (correctedWorkflowJson referenceEngine patched_example)
     = Inr (Some (''{'' @ [CHR 0x0A] @ ''  '' @ [CHR 0x22] @ ''tags'' @ [CHR 0x22] @ '': [''
                  @ [CHR 0x0A] @ ''    1'' @ [CHR 0x0A] @ ''  ]'' @ [CHR 0x0A] @ ''}''))"
proof -
  let ?h = "[OArr [] [], OObj [(''tags'', VRef 0)], OArr [VNum (Fin 1)] []]"
  have c: "jsonClone referenceEngine (VRef (Suc 0)) ?h
        = Inr (VRef 4, ?h @ [OArr [] [], OObj [(''tags'', VRef 3)]])"
    by (simp add: jsonClone_def referenceEngine_def unfold_snapshot lookupObj_def)
  have k: "castPath ''tags'' (OObj [(''tags'', VRef 3)]) = [''tags'']"
    by (simp add: castPath_def isKey_def isWordChar_def isDigit_def)
  have l: "lodashSet referenceEngine (VRef 4) ''tags'' (VRef 2) (?h @ [OArr [] [], OObj [(''tags'', VRef 3)]])
        = (None, ?h @ [OArr [] [], OObj [(''tags'', VRef 2)]])"
    by (simp add: lodashSet_def lookupObj_def k unsafeKey_def setProperty_def putProperty_def)
  have s: "snapshot (maxDepth referenceEngine) (?h @ [OArr [] [], OObj [(''tags'', VRef 2)]]) (VRef 4)
        = Some (JObj [(''tags'', JArr [JNum (Fin 1)])])"
    by (simp add: referenceEngine_def unfold_snapshot lookupObj_def)
  have p: "stringify2 referenceEngine (JObj [(''tags'', JArr [JNum (Fin 1)])])
        = ''{'' @ [CHR 0x0A] @ ''  '' @ [CHR 0x22] @ ''tags'' @ [CHR 0x22] @ '': ['' @ [CHR 0x0A]
          @ ''    1'' @ [CHR 0x0A] @ ''  ]'' @ [CHR 0x0A] @ ''}''"
    by (simp add: stringify2_def referenceEngine_def quoteJSONString_def escapeChar_def joinWith_def
          showNumber_def digitChar_def)
  show ?thesis
    using c l s p by (simp add: correctedWorkflowJson_def patched_example_eval truthy_def)
qed

section \<open>Properties of the fix selection\<close>

text \<open>C8: toggling an id twice in succession gives back the approved set (and the whole
  state) that was there before, for every id and every approved set.\<close>

theorem toggleFix_involution:
  "toggleFix i (toggleFix i s) = s"
  by (cases "i \<in> approvedFixes s") (auto simp: toggleFix_def insert_absorb)

text \<open>C2: with a result in place, \<open>approveAllFixes\<close> replaces the approved set by exactly
  the ids of the errors whose \<open>requiresUserInput\<close> is false, whatever the set held before;
  doing it twice is doing it once; and an id all of whose errors need the user is not in
  the set afterwards, even when it was in the set before.\<close>

theorem approveAllFixes_exact:
  assumes "analysisResult s = Some r"
  shows "approvedFixes (approveAllFixes s)
           = {error_id e | e. e \<in> set (errors r) \<and> \<not> requiresUserInput (jsonModification e)}
         \<and> approveAllFixes (approveAllFixes s) = approveAllFixes s
         \<and> (\<forall>x. (\<forall>e \<in> set (errors r). error_id e = x \<longrightarrow> requiresUserInput (jsonModification e))
                \<longrightarrow> x \<notin> approvedFixes (approveAllFixes s))"
  using assms by (auto simp: approveAllFixes_def autoFixableErrorIds_def)

lemma selection_example_eval:
  "selection_example =
     initial_state\<lparr>jsonInput := ''{}'', hasApiKey := True, originalWorkflow := VRef 0,
       store := [OObj []], stage := Results,
       analysisResult := Some (mkResult
         [mkError ''e1'' ''name'' (VStr ''Bot'') False,
          mkError ''e2'' ''credentials.apiKey'' (VStr ''<PASTE_YOUR_SECRET_API_KEY_HERE>'') True])\<rparr>"
  by (simp add: selection_example_def analyzed_def handleAnalyze_def handleAnalyze_validate_def
        handleAnalyze_settle_def initial_state_def referenceEngine_def trim_def isWhiteSpace_def
        parse_simps)

theorem approveAllFixes_exact_witness:
  "analysisResult (toggleFix ''e2'' selection_example)
     = Some (mkResult
         [mkError ''e1'' ''name'' (VStr ''Bot'') False,
          mkError ''e2'' ''credentials.apiKey'' (VStr ''<PASTE_YOUR_SECRET_API_KEY_HERE>'') True])
   \<and> ''e2'' \<in> approvedFixes (toggleFix ''e2'' selection_example)
   \<and> approvedFixes (approveAllFixes (toggleFix ''e2'' selection_example)) = {''e1''}"
proof -
  let ?r = "mkResult
         [mkError ''e1'' ''name'' (VStr ''Bot'') False,
          mkError ''e2'' ''credentials.apiKey'' (VStr ''<PASTE_YOUR_SECRET_API_KEY_HERE>'') True]"
  have r: "analysisResult (toggleFix ''e2'' selection_example) = Some ?r"
    by (simp add: selection_example_eval toggleFix_def)
  have m: "''e2'' \<in> approvedFixes (toggleFix ''e2'' selection_example)"
    by (simp add: selection_example_eval toggleFix_def initial_state_def)
  have "{error_id e | e. e \<in> set (errors ?r) \<and> \<not> requiresUserInput (jsonModification e)}
          = set (map error_id (filter (\<lambda>e. \<not> requiresUserInput (jsonModification e)) (errors ?r)))"
    by auto
  also have "\<dots> = {''e1''}"
    by (simp add: mkResult_def mkError_def)
  finally have "{error_id e | e. e \<in> set (errors ?r) \<and> \<not> requiresUserInput (jsonModification e)} = {''e1''}" .
  with approveAllFixes_exact [OF r] r m show ?thesis by simp
qed

section \<open>Properties of the session\<close>



text \<open>C5: when the text has passed the validation and the analyzer fails with an
  \<open>Error\<close> whose message contains "Requested entity was not found", the handler ends
  with the credential flag false, the message about the key as the error, and the
  stage \<open>input\<close>.\<close>

theorem handleAnalyze_entity_not_found:
  assumes "handleAnalyze_validate E s = Inr s1"
    and "analyze (jsonInput s) (store s1) = (RejectedError m, h)"
    and "str_includes m ''Requested entity was not found''"
  shows "hasApiKey (handleAnalyze E analyze s) = False
         \<and> apiError (handleAnalyze E analyze s)
             = Some ''The selected API key is invalid or has been revoked. Please select a different key.''
         \<and> stage (handleAnalyze E analyze s) = Input"
  using assms by (simp add: handleAnalyze_def handleAnalyze_settle_def)

lemma validate_empty_object:
  "handleAnalyze_validate referenceEngine (initial_state\<lparr>jsonInput := ''{}'', hasApiKey := True\<rparr>)
     = Inr (initial_state\<lparr>jsonInput := ''{}'', hasApiKey := True, originalWorkflow := VRef 0,
              store := [OObj []], stage := Analyzing\<rparr>)"
  by (simp add: handleAnalyze_validate_def initial_state_def referenceEngine_def trim_def
        isWhiteSpace_def parse_simps)

lemma revokedKeyAnalyzer_eval:
  "revokedKeyAnalyzer t h
     = (RejectedError ''Error analyzing workflow with Gemini: Requested entity was not found.'', h)"
  by (simp add: revokedKeyAnalyzer_def analyzeWorkflow_def caughtMessage_def errorObject_def
        geminiPrefix_def)

theorem handleAnalyze_entity_not_found_witness:
  "hasApiKey (initial_state\<lparr>jsonInput := ''{}'', hasApiKey := True\<rparr>)
   \<and> hasApiKey (handleAnalyze referenceEngine revokedKeyAnalyzer
                  (initial_state\<lparr>jsonInput := ''{}'', hasApiKey := True\<rparr>)) = False
   \<and> stage (handleAnalyze referenceEngine revokedKeyAnalyzer
               (initial_state\<lparr>jsonInput := ''{}'', hasApiKey := True\<rparr>)) = Input"
proof -
  have i: "str_includes ''Error analyzing workflow with Gemini: Requested entity was not found.''
             ''Requested entity was not found''"
    by (simp add: startsWith_def)
  from handleAnalyze_entity_not_found [OF validate_empty_object revokedKeyAnalyzer_eval i]
  show ?thesis by simp
qed

text \<open>C6: when \<open>JSON.parse\<close> throws on the submitted text, the handler records an input
  error ("Invalid JSON format. Please check your input.", or the message for an empty
  input if the text is blank) and changes nothing else: the stage stays what it was,
  \<open>input\<close>, and the text is kept as submitted.\<close>

theorem handleAnalyze_invalid_json:
  assumes "JSON_parse E (jsonInput s) = Inl m"
  shows "handleAnalyze E analyze s
           = s\<lparr>apiError := Some (if trim (jsonInput s) = [] then ''JSON input cannot be empty.''
                                else ''Invalid JSON format. Please check your input.'')\<rparr>
         \<and> stage (handleAnalyze E analyze s) = stage s
         \<and> jsonInput (handleAnalyze E analyze s) = jsonInput s
         \<and> apiError (handleAnalyze E analyze s) \<noteq> None"
  using assms by (simp add: handleAnalyze_def handleAnalyze_validate_def)

lemma parseJSON_not_json: "parseJSON ''not json'' = Inl ''Unexpected token''"
  by (simp add: parseJSON_def isJsonWhiteSpace_def isDigit_def startsWith_def)

theorem handleAnalyze_invalid_json_witness:
  "stage (handleAnalyze referenceEngine revokedKeyAnalyzer (initial_state\<lparr>jsonInput := ''not json''\<rparr>)) = Input
   \<and> jsonInput (handleAnalyze referenceEngine revokedKeyAnalyzer (initial_state\<lparr>jsonInput := ''not json''\<rparr>))
       = ''not json''
   \<and> apiError (handleAnalyze referenceEngine revokedKeyAnalyzer (initial_state\<lparr>jsonInput := ''not json''\<rparr>))
       = Some ''Invalid JSON format. Please check your input.''"
proof -
  have t: "trim (jsonInput (initial_state\<lparr>jsonInput := ''not json''\<rparr>)) \<noteq> []"
    by (simp add: trim_def isWhiteSpace_def)
  have p: "JSON_parse referenceEngine (jsonInput (initial_state\<lparr>jsonInput := ''not json''\<rparr>))
             = Inl ''Unexpected token''"
    by (simp add: referenceEngine_def parseJSON_not_json)
  from handleAnalyze_invalid_json [OF p, of revokedKeyAnalyzer] t
  show ?thesis by (simp add: initial_state_def)
qed

text \<open>C10: a text that is empty or white space only is turned down before
  \<open>JSON.parse\<close> is called: whatever the engine and the analyzer, the handler records
  "JSON input cannot be empty." and changes nothing else, so the stage, the document,
  the result and the approved set are as before.\<close>

theorem handleAnalyze_empty_input:
  assumes "trim (jsonInput s) = []"
  shows "handleAnalyze E analyze s = s\<lparr>apiError := Some ''JSON input cannot be empty.''\<rparr>
         \<and> stage (handleAnalyze E analyze s) = stage s
         \<and> originalWorkflow (handleAnalyze E analyze s) = originalWorkflow s
         \<and> store (handleAnalyze E analyze s) = store s
         \<and> analysisResult (handleAnalyze E analyze s) = analysisResult s
         \<and> approvedFixes (handleAnalyze E analyze s) = approvedFixes s"
  using assms by (simp add: handleAnalyze_def handleAnalyze_validate_def)

theorem handleAnalyze_empty_input_witness:
  "JSON_parse lenientEngine (jsonInput (initial_state\<lparr>jsonInput := [CHR '' '', CHR 0x09, CHR 0x0A]\<rparr>)) = Inr JNull
   \<and> handleAnalyze lenientEngine revokedKeyAnalyzer (initial_state\<lparr>jsonInput := [CHR '' '', CHR 0x09, CHR 0x0A]\<rparr>)
       = initial_state\<lparr>jsonInput := [CHR '' '', CHR 0x09, CHR 0x0A],
                        apiError := Some ''JSON input cannot be empty.''\<rparr>"
proof -
  have t: "trim (jsonInput (initial_state\<lparr>jsonInput := [CHR '' '', CHR 0x09, CHR 0x0A]\<rparr>)) = []"
    by (simp add: trim_def isWhiteSpace_def)
  from handleAnalyze_empty_input [OF t, of lenientEngine revokedKeyAnalyzer]
  show ?thesis by (simp add: lenientEngine_def)
qed

section \<open>The store under allocation\<close>

lemma those_eq_Some: "those os = Some ys \<longleftrightarrow> os = map Some ys"
proof (induction os arbitrary: ys)
  case Nil
  then show ?case by auto
next
  case (Cons a os)
  then show ?case by (cases a; cases ys) auto
qed

lemma those_map_cong:
  assumes "those (map f xs) = Some ys" and "\<And>x. x \<in> set xs \<Longrightarrow> f x \<noteq> None \<Longrightarrow> g x = f x"
  shows "those (map g xs) = Some ys"
proof -
  from assms(1) have m: "map f xs = map Some ys" by (simp add: those_eq_Some)
  have "\<forall>x \<in> set xs. f x \<noteq> None"
  proof
    fix x assume "x \<in> set xs"
    then have "f x \<in> set (map f xs)" by simp
    with m show "f x \<noteq> None" by auto
  qed
  with assms(2) have "map g xs = map f xs" by (intro map_cong) auto
  with m show ?thesis by (simp add: those_eq_Some)
qed

lemma lookupObj_append: "a < length h \<Longrightarrow> lookupObj (h @ ext) a = lookupObj h a"
  by (simp add: lookupObj_def nth_append)

lemma lookupObj_Some_less: "lookupObj h a = Some ob \<Longrightarrow> a < length h"
  by (simp add: lookupObj_def split: if_splits)

lemma snapshot_append: "snapshot d h v = Some j \<Longrightarrow> snapshot d (h @ ext) v = Some j"
proof (induction d arbitrary: v j)
  case 0
  then show ?case by (cases v) auto
next
  case (Suc d)
  show ?case
  proof (cases v)
    case (VRef a)
    with Suc.prems obtain ob where ob: "lookupObj h a = Some ob"
      by (auto split: option.splits)
    then have ob': "lookupObj (h @ ext) a = Some ob"
      by (simp add: lookupObj_append lookupObj_Some_less)
    show ?thesis
    proof (cases ob)
      case (OObj fs)
      with Suc.prems VRef ob obtain kvs where
        t: "those (map (\<lambda>f. map_option (Pair (fst f)) (snapshot d h (snd f)))
                       (filter (\<lambda>f. snd f \<noteq> VUndef) fs)) = Some kvs" and j: "j = JObj kvs"
        by auto
      have "those (map (\<lambda>f. map_option (Pair (fst f)) (snapshot d (h @ ext) (snd f)))
                       (filter (\<lambda>f. snd f \<noteq> VUndef) fs)) = Some kvs"
        by (rule those_map_cong [OF t]) (auto simp: Suc.IH)
      with VRef ob' OObj j show ?thesis by simp
    next
      case (OArr es xs)
      with Suc.prems VRef ob obtain js where
        t: "those (map (snapshot d h) es) = Some js" and j: "j = JArr js"
        by auto
      have "those (map (snapshot d (h @ ext)) es) = Some js"
        by (rule those_map_cong [OF t]) (auto simp: Suc.IH)
      with VRef ob' OArr j show ?thesis by simp
    qed
  qed (use Suc.prems in auto)
qed

lemma alloc_extends:
  "\<exists>ext. snd (alloc j h) = h @ ext"
  "\<exists>ext. snd (alloc_list xs h) = h @ ext"
  "\<exists>ext. snd (alloc_fields fs h) = h @ ext"
proof (induction j h and xs h and fs h rule: alloc_alloc_list_alloc_fields.induct)
  case (5 xs h)
  then show ?case by (auto split: prod.splits)
next
  case (6 fs h)
  then show ?case by (auto split: prod.splits)
next
  case (8 x xs h)
  then show ?case by (fastforce split: prod.splits)
next
  case (10 f fs h)
  then show ?case by (fastforce split: prod.splits)
qed auto

lemma foldr_max_ge: "x \<in> set xs \<Longrightarrow> f x \<le> foldr max (map f xs) (0::nat)"
  by (induction xs) (auto simp: max.coboundedI2)

lemma foldr_max_le: "(\<forall>x \<in> set xs. f x \<le> d) \<Longrightarrow> foldr max (map f xs) (0::nat) \<le> d"
  by (induction xs) auto

lemma alloc_not_undef: "fst (alloc j h) \<noteq> VUndef"
  by (cases j) (auto split: prod.splits)

lemma those_map_snapshot_append:
  "those (map (snapshot d h) vs) = Some js \<Longrightarrow> those (map (snapshot d (h @ ext)) vs) = Some js"
  by (erule those_map_cong) (auto simp: snapshot_append)

lemma those_fields_snapshot_append:
  "those (map (\<lambda>f. map_option (Pair (fst f)) (snapshot d h (snd f))) kvs) = Some fs
   \<Longrightarrow> those (map (\<lambda>f. map_option (Pair (fst f)) (snapshot d (h @ ext) (snd f))) kvs) = Some fs"
  by (erule those_map_cong) (auto simp: snapshot_append)

lemma alloc_snapshot:
  "\<forall>d. depth j \<le> d \<longrightarrow> snapshot d (snd (alloc j h)) (fst (alloc j h)) = Some j"
  "\<forall>d. (\<forall>x \<in> set xs. depth x \<le> d) \<longrightarrow>
       those (map (snapshot d (snd (alloc_list xs h))) (fst (alloc_list xs h))) = Some xs"
  "\<forall>d. (\<forall>f \<in> set fs. depth (snd f) \<le> d) \<longrightarrow>
       those (map (\<lambda>f. map_option (Pair (fst f)) (snapshot d (snd (alloc_fields fs h)) (snd f)))
                  (fst (alloc_fields fs h))) = Some fs
       \<and> (\<forall>f \<in> set (fst (alloc_fields fs h)). snd f \<noteq> VUndef)"
proof (induction j h and xs h and fs h rule: alloc_alloc_list_alloc_fields.induct)
  case (5 xs h)
  show ?case
  proof (intro allI impI)
    fix d assume d: "depth (JArr xs) \<le> d"
    then obtain d' where d': "d = Suc d'" by (cases d) auto
    obtain vs h' where a: "alloc_list xs h = (vs, h')" by (cases "alloc_list xs h")
    from d d' have "\<forall>x \<in> set xs. depth x \<le> d'"
      using foldr_max_ge [of _ xs depth] by fastforce
    with 5 a have "those (map (snapshot d' h') vs) = Some xs" by auto
    then have "those (map (snapshot d' (h' @ [OArr vs []])) vs) = Some xs"
      by (rule those_map_snapshot_append)
    with a d' show "snapshot d (snd (alloc (JArr xs) h)) (fst (alloc (JArr xs) h)) = Some (JArr xs)"
      by (simp add: lookupObj_def)
  qed
next
  case (6 fs h)
  show ?case
  proof (intro allI impI)
    fix d assume d: "depth (JObj fs) \<le> d"
    then obtain d' where d': "d = Suc d'" by (cases d) auto
    obtain kvs h' where a: "alloc_fields fs h = (kvs, h')" by (cases "alloc_fields fs h")
    from d d' have "\<forall>f \<in> set fs. depth (snd f) \<le> d'"
      using foldr_max_ge [of _ fs "\<lambda>f. depth (snd f)"] by fastforce
    with 6 a have t: "those (map (\<lambda>f. map_option (Pair (fst f)) (snapshot d' h' (snd f))) kvs) = Some fs"
      and u: "\<forall>f \<in> set kvs. snd f \<noteq> VUndef" by auto
    from t have "those (map (\<lambda>f. map_option (Pair (fst f)) (snapshot d' (h' @ [OObj kvs]) (snd f))) kvs) = Some fs"
      by (rule those_fields_snapshot_append)
    moreover from u have "filter (\<lambda>f. snd f \<noteq> VUndef) kvs = kvs" by (simp add: filter_id_conv)
    ultimately show "snapshot d (snd (alloc (JObj fs) h)) (fst (alloc (JObj fs) h)) = Some (JObj fs)"
      using a d' by (simp add: lookupObj_def)
  qed
next
  case (8 x xs h)
  show ?case
  proof (intro allI impI)
    fix d assume d: "\<forall>y \<in> set (x # xs). depth y \<le> d"
    obtain v h1 where a1: "alloc x h = (v, h1)" by (cases "alloc x h")
    obtain vs h2 where a2: "alloc_list xs h1 = (vs, h2)" by (cases "alloc_list xs h1")
    from alloc_extends(2) [of xs h1] a2 obtain ext where e: "h2 = h1 @ ext" by auto
    from 8(1) a1 d have "snapshot d h1 v = Some x" by auto
    with e have "snapshot d h2 v = Some x" by (simp add: snapshot_append)
    moreover from 8(2) [OF a1 [symmetric]] a1 a2 d have "those (map (snapshot d h2) vs) = Some xs" by auto
    ultimately show "those (map (snapshot d (snd (alloc_list (x # xs) h))) (fst (alloc_list (x # xs) h)))
        = Some (x # xs)"
      using a1 a2 by simp
  qed
next
  case (10 f fs h)
  show ?case
  proof (intro allI impI)
    fix d assume d: "\<forall>g \<in> set (f # fs). depth (snd g) \<le> d"
    obtain v h1 where a1: "alloc (snd f) h = (v, h1)" by (cases "alloc (snd f) h")
    obtain kvs h2 where a2: "alloc_fields fs h1 = (kvs, h2)" by (cases "alloc_fields fs h1")
    from alloc_extends(3) [of fs h1] a2 obtain ext where e: "h2 = h1 @ ext" by auto
    from 10(1) a1 d have "snapshot d h1 v = Some (snd f)" by auto
    with e have s: "snapshot d h2 v = Some (snd f)" by (simp add: snapshot_append)
    from alloc_not_undef [of "snd f" h] a1 have nu: "v \<noteq> VUndef" by simp
    from 10(2) [OF a1 [symmetric]] a1 a2 d
    have "those (map (\<lambda>f. map_option (Pair (fst f)) (snapshot d h2 (snd f))) kvs) = Some fs
          \<and> (\<forall>f \<in> set kvs. snd f \<noteq> VUndef)" by auto
    with s nu show "those (map (\<lambda>g. map_option (Pair (fst g)) (snapshot d (snd (alloc_fields (f # fs) h)) (snd g)))
                  (fst (alloc_fields (f # fs) h))) = Some (f # fs)
       \<and> (\<forall>g \<in> set (fst (alloc_fields (f # fs) h)). snd g \<noteq> VUndef)"
      using a1 a2 by simp
  qed
qed auto

lemma snapshot_depth: "snapshot d h v = Some j \<Longrightarrow> depth j \<le> d"
proof (induction d arbitrary: v j)
  case 0
  then show ?case by (cases v) auto
next
  case (Suc d)
  show ?case
  proof (cases v)
    case (VRef a)
    with Suc.prems obtain ob where ob: "lookupObj h a = Some ob"
      by (auto split: option.splits)
    show ?thesis
    proof (cases ob)
      case (OObj fs)
      with Suc.prems VRef ob obtain kvs where
        t: "map (\<lambda>f. map_option (Pair (fst f)) (snapshot d h (snd f)))
                       (filter (\<lambda>f. snd f \<noteq> VUndef) fs) = map Some kvs" and j: "j = JObj kvs"
        by (auto simp: those_eq_Some)
      have "\<forall>g \<in> set kvs. depth (snd g) \<le> d"
      proof
        fix g assume "g \<in> set kvs"
        then have "Some g \<in> set (map Some kvs)" by simp
        with t obtain f where "map_option (Pair (fst f)) (snapshot d h (snd f)) = Some g"
          by (metis (no_types, lifting) imageE list.set_map)
        then have "snapshot d h (snd f) = Some (snd g)" by auto
        then show "depth (snd g) \<le> d" by (rule Suc.IH)
      qed
      with j show ?thesis by (simp add: foldr_max_le)
    next
      case (OArr es xs)
      with Suc.prems VRef ob obtain js where
        t: "map (snapshot d h) es = map Some js" and j: "j = JArr js"
        by (auto simp: those_eq_Some)
      have "\<forall>g \<in> set js. depth g \<le> d"
      proof
        fix g assume "g \<in> set js"
        then have "Some g \<in> set (map Some js)" by simp
        with t obtain e where "snapshot d h e = Some g"
          by (metis (no_types, lifting) imageE list.set_map)
        then show "depth g \<le> d" by (rule Suc.IH)
      qed
      with j show ?thesis by (simp add: foldr_max_le)
    qed
  qed (use Suc.prems in auto)
qed

lemma depth_reparse: "depth (reparse j) \<le> depth j"
proof (induction j)
  case (JNum n)
  then show ?case by (cases n) auto
next
  case (JArr xs)
  have "foldr max (map depth (map reparse xs)) 0 \<le> foldr max (map depth xs) 0"
  proof (rule foldr_max_le, rule ballI)
    fix y assume "y \<in> set (map reparse xs)"
    then obtain x where x: "x \<in> set xs" "y = reparse x" by auto
    with JArr have "depth y \<le> depth x" by simp
    also have "\<dots> \<le> foldr max (map depth xs) 0" using x(1) by (rule foldr_max_ge)
    finally show "depth y \<le> foldr max (map depth xs) 0" .
  qed
  then show ?case by simp
next
  case (JObj fs)
  have "foldr max (map (\<lambda>f. depth (snd f)) (map (map_prod (\<lambda>k. k) reparse) fs)) 0
          \<le> foldr max (map (\<lambda>f. depth (snd f)) fs) 0"
  proof (rule foldr_max_le, rule ballI)
    fix y assume "y \<in> set (map (map_prod (\<lambda>k. k) reparse) fs)"
    then obtain x where x: "x \<in> set fs" "y = map_prod (\<lambda>k. k) reparse x" by auto
    have "snd x \<in> Basic_BNFs.snds x" by (cases x) simp
    with JObj x have "depth (snd y) \<le> depth (snd x)" by (cases x) auto
    also have "\<dots> \<le> foldr max (map (\<lambda>f. depth (snd f)) fs) 0" using x(1) by (rule foldr_max_ge)
    finally show "depth (snd y) \<le> foldr max (map (\<lambda>f. depth (snd f)) fs) 0" .
  qed
  then show ?case by simp
qed auto

lemma serialize_reparse: "serialize E ind (reparse j) = serialize E ind j"
proof (induction j arbitrary: ind)
  case (JNum n)
  then show ?case by (cases n) auto
next
  case (JArr xs)
  have "map (serialize E (ind @ ''  '')) (map reparse xs) = map (serialize E (ind @ ''  '')) xs"
    unfolding map_map by (rule map_cong) (simp_all add: JArr)
  then show ?case by (simp del: map_map)
next
  case (JObj fs)
  have "map (\<lambda>f. quoteJSONString (fst f) @ '': '' @ serialize E (ind @ ''  '') (snd f))
            (map (map_prod (\<lambda>k. k) reparse) fs)
        = map (\<lambda>f. quoteJSONString (fst f) @ '': '' @ serialize E (ind @ ''  '') (snd f)) fs"
    unfolding map_map
  proof (rule map_cong)
    fix f assume "f \<in> set fs"
    moreover have "snd f \<in> Basic_BNFs.snds f" by (cases f) simp
    ultimately have "serialize E (ind @ ''  '') (reparse (snd f)) = serialize E (ind @ ''  '') (snd f)"
      by (rule JObj)
    then show "((\<lambda>f. quoteJSONString (fst f) @ '': '' @ serialize E (ind @ ''  '') (snd f))
                 \<circ> map_prod (\<lambda>k. k) reparse) f
               = quoteJSONString (fst f) @ '': '' @ serialize E (ind @ ''  '') (snd f)"
      by (cases f) simp
  qed simp
  then show ?case by (simp del: map_map)
qed auto

section \<open>Properties of the document patcher\<close>

lemma applyFixes_none_approved:
  "\<forall>e \<in> set es. error_id e \<notin> approved \<Longrightarrow> applyFixes E es approved cw h = (None, h)"
  by (induction es) auto

lemma reparse_plainNumbers: "plainNumbers j \<Longrightarrow> reparse j = j"
proof (induction j)
  case (JNum n)
  then show ?case by (cases n) auto
next
  case (JArr xs)
  then have "map reparse xs = map (\<lambda>x. x) xs"
    by (intro map_cong) (auto simp: list_all_iff)
  then show ?case by simp
next
  case (JObj fs)
  have "map (map_prod (\<lambda>k. k) reparse) fs = map (\<lambda>f. f) fs"
  proof (rule map_cong [OF refl])
    fix f assume f: "f \<in> set fs"
    moreover have "snd f \<in> Basic_BNFs.snds f" by (cases f) simp
    moreover from f JObj.prems have "plainNumbers (snd f)" by (simp add: list_all_iff)
    ultimately have "reparse (snd f) = snd f" by (rule JObj.IH)
    then show "map_prod (\<lambda>k. k) reparse f = f" by (cases f) simp
  qed
  then show ?case by simp
qed auto

text \<open>C9: with a document in place (a truthy value that \<open>JSON.stringify\<close> can print) and
  a result, and no fix approved, the corrected document is the text that
  \<open>JSON.stringify(original, null, 2)\<close> gives for the original, whatever the patches are.
  The copy that was made reads back as the original does after one round trip through
  JSON text, which is as the original itself where all its numbers are finite and none
  is negative zero.\<close>

theorem correctedWorkflowJson_nothing_approved:
  assumes "truthy (originalWorkflow s)"
    and "analysisResult s = Some r"
    and "approvedFixes s = {}"
    and "snapshot (maxDepth E) (store s) (originalWorkflow s) = Some j"
  shows "fst (correctedWorkflowJson E s) = Inr (Some (stringify2 E j))
         \<and> (\<exists>c. jsonClone E (originalWorkflow s) (store s) = Inr c
                \<and> snd (correctedWorkflowJson E s) = snd c
                \<and> snapshot (maxDepth E) (snd c) (fst c) = Some (reparse j)
                \<and> (plainNumbers j \<longrightarrow> snapshot (maxDepth E) (snd c) (fst c) = Some j))"
proof -
  from assms(1) have nu: "originalWorkflow s \<noteq> VUndef" by (auto simp: truthy_def)
  obtain cw h1 where a: "alloc (reparse j) (store s) = (cw, h1)" by (cases "alloc (reparse j) (store s)")
  from nu assms(4) a have c: "jsonClone E (originalWorkflow s) (store s) = Inr (cw, h1)"
    by (simp add: jsonClone_def)
  have "depth (reparse j) \<le> maxDepth E"
    using depth_reparse [of j] snapshot_depth [OF assms(4)] by simp
  with alloc_snapshot(1) [of "reparse j" "store s"] a
  have sn: "snapshot (maxDepth E) h1 cw = Some (reparse j)" by simp
  from assms(3) have f: "applyFixes E (errors r) (approvedFixes s) cw h1 = (None, h1)"
    by (simp add: applyFixes_none_approved)
  from assms(1,2) c f sn show ?thesis
    by (simp add: correctedWorkflowJson_def stringify2_def serialize_reparse reparse_plainNumbers)
qed

theorem correctedWorkflowJson_nothing_approved_witness:
  \<open>truthy (originalWorkflow unchanged_example)
   \<and> approvedFixes unchanged_example = {}
   \<and> fst (correctedWorkflowJson referenceEngine unchanged_example)
       = Inr (Some (''{'' @ [CHR 0x0A] @ ''  "a": 0,'' @ [CHR 0x0A] @ ''  "b": ['' @ [CHR 0x0A]
                    @ ''    1'' @ [CHR 0x0A] @ ''  ]'' @ [CHR 0x0A] @ ''}''))\<close>
proof -
  let ?j = "JObj [(''a'', JNum NegZero), (''b'', JArr [JNum (Fin 1)])]"
  have t: "truthy (originalWorkflow unchanged_example)"
    by (simp add: unchanged_example_eval truthy_def)
  have r: "analysisResult unchanged_example = Some (mkResult [mkError ''e1'' ''a'' (VNum (Fin 2)) False])"
    by (simp add: unchanged_example_eval)
  have a: "approvedFixes unchanged_example = {}"
    by (simp add: unchanged_example_eval initial_state_def)
  have s: "snapshot (maxDepth referenceEngine) (store unchanged_example) (originalWorkflow unchanged_example) = Some ?j"
    by (simp add: unchanged_example_eval referenceEngine_def unfold_snapshot lookupObj_def)
  have p: "stringify2 referenceEngine ?j = ''{'' @ [CHR 0x0A] @ ''  '' @ [CHR 0x22] @ ''a'' @ [CHR 0x22] @ '': 0,'' @ [CHR 0x0A] @ ''  '' @ [CHR 0x22] @ ''b'' @ [CHR 0x22] @  '': ['' @ [CHR 0x0A]
                    @ ''    1'' @ [CHR 0x0A] @ ''  ]'' @ [CHR 0x0A] @ ''}''"
    by (simp add: stringify2_def referenceEngine_def quoteJSONString_def escapeChar_def joinWith_def
          showNumber_def digitChar_def)
  from correctedWorkflowJson_nothing_approved [OF t r a s] t a p show ?thesis by simp
qed

section \<open>Properties of analyzeWorkflow\<close>

lemma postProcessError_cases:
  assumes "postProcessError E w h = (e, h')"
  shows "(\<exists>m. JSON_parse E (w_newValue w) = Inl m \<and> h' = h
              \<and> newValue (jsonModification e) = VStr (w_newValue w))
         \<or> (\<exists>j. JSON_parse E (w_newValue w) = Inr j
              \<and> alloc j h = (newValue (jsonModification e), h'))"
  using assms by (auto simp: postProcessError_def split: sum.splits prod.splits)

lemma postProcessError_extends:
  assumes "postProcessError E w h = (e, h')"
  shows "\<exists>ext. h' = h @ ext"
proof -
  from postProcessError_cases [OF assms] show ?thesis
  proof
    assume "\<exists>m. JSON_parse E (w_newValue w) = Inl m \<and> h' = h
              \<and> newValue (jsonModification e) = VStr (w_newValue w)"
    then show ?thesis by auto
  next
    assume "\<exists>j. JSON_parse E (w_newValue w) = Inr j
              \<and> alloc j h = (newValue (jsonModification e), h')"
    then obtain j where "alloc j h = (newValue (jsonModification e), h')" by auto
    with alloc_extends(1) [of j h] show ?thesis by simp
  qed
qed

lemma postProcessErrors_extends: "\<exists>ext. snd (postProcessErrors E ws h) = h @ ext"
proof (induction ws arbitrary: h)
  case Nil
  then show ?case by simp
next
  case (Cons w ws)
  obtain e h1 where p: "postProcessError E w h = (e, h1)" by (cases "postProcessError E w h")
  from postProcessError_extends [OF p] obtain ext1 where e1: "h1 = h @ ext1" by auto
  from Cons [of h1] obtain ext2 where "snd (postProcessErrors E ws h1) = h1 @ ext2" by auto
  with p e1 show ?case by (auto split: prod.splits)
qed

lemma storedAs_append: "storedAs E h t v \<Longrightarrow> storedAs E (h @ ext) t v"
  by (auto simp: storedAs_def snapshot_append split: sum.splits)

lemma postProcessError_storedAs:
  assumes "postProcessError E w h = (e, h')"
  shows "storedAs E h' (w_newValue w) (newValue (jsonModification e))"
proof -
  from postProcessError_cases [OF assms] show ?thesis
  proof
    assume "\<exists>m. JSON_parse E (w_newValue w) = Inl m \<and> h' = h
              \<and> newValue (jsonModification e) = VStr (w_newValue w)"
    then show ?thesis by (auto simp: storedAs_def)
  next
    assume "\<exists>j. JSON_parse E (w_newValue w) = Inr j
              \<and> alloc j h = (newValue (jsonModification e), h')"
    then obtain j where j: "JSON_parse E (w_newValue w) = Inr j"
      and a: "alloc j h = (newValue (jsonModification e), h')" by auto
    from alloc_snapshot(1) [of j h] a
    have "\<forall>d \<ge> depth j. snapshot d h' (newValue (jsonModification e)) = Some j" by simp
    with j show ?thesis by (simp add: storedAs_def)
  qed
qed

lemma postProcessErrors_storedAs:
  "postProcessErrors E ws h = (es, h') \<Longrightarrow>
   length es = length ws
   \<and> (\<forall>i < length ws. storedAs E h' (w_newValue (ws ! i)) (newValue (jsonModification (es ! i)))
         \<and> error_id (es ! i) = w_id (ws ! i)
         \<and> path (jsonModification (es ! i)) = w_path (ws ! i)
         \<and> requiresUserInput (jsonModification (es ! i)) = w_requiresUserInput (ws ! i))"
proof (induction ws arbitrary: h es h')
  case Nil
  then show ?case by simp
next
  case (Cons w ws)
  obtain e h1 where p: "postProcessError E w h = (e, h1)" by (cases "postProcessError E w h")
  obtain es' h2 where q: "postProcessErrors E ws h1 = (es', h2)" by (cases "postProcessErrors E ws h1")
  from Cons.prems p q have es: "es = e # es'" and h': "h' = h2" by auto
  from postProcessErrors_extends [of E ws h1] q obtain ext where ext: "h2 = h1 @ ext" by auto
  from postProcessError_storedAs [OF p] ext
  have s0: "storedAs E h2 (w_newValue w) (newValue (jsonModification e))"
    by (simp add: storedAs_append)
  from p have f0: "error_id e = w_id w \<and> path (jsonModification e) = w_path w
      \<and> requiresUserInput (jsonModification e) = w_requiresUserInput w"
    by (auto simp: postProcessError_def split: sum.splits prod.splits)
  from Cons.IH [OF q] have ih: "length es' = length ws"
    "\<forall>i < length ws. storedAs E h2 (w_newValue (ws ! i)) (newValue (jsonModification (es' ! i)))
         \<and> error_id (es' ! i) = w_id (ws ! i)
         \<and> path (jsonModification (es' ! i)) = w_path (ws ! i)
         \<and> requiresUserInput (jsonModification (es' ! i)) = w_requiresUserInput (ws ! i)"
    by auto
  show ?case
  proof (intro conjI allI impI)
    show "length es = length (w # ws)" using es ih(1) by simp
  next
    fix i assume "i < length (w # ws)"
    then show "storedAs E h' (w_newValue ((w # ws) ! i)) (newValue (jsonModification (es ! i)))"
      "error_id (es ! i) = w_id ((w # ws) ! i)"
      "path (jsonModification (es ! i)) = w_path ((w # ws) ! i)"
      "requiresUserInput (jsonModification (es ! i)) = w_requiresUserInput ((w # ws) ! i)"
      using es h' s0 f0 ih(2) by (cases i; simp)+
  qed
qed

text \<open>C7: with an API key and a response text, (1) if the text, trimmed and without its
  code fence, does not parse, \<open>analyzeWorkflow\<close> throws an \<open>Error\<close> that carries the
  message of the parser; (2) if it parses to a result of the declared shape,
  \<open>analyzeWorkflow\<close> returns a result with one error for each error of the wire, and
  the \<open>newValue\<close> of each is the value its string parses to, or the string itself
  if it does not parse: no such string makes the call fail.\<close>

theorem analyzeWorkflow_payload:
  assumes "apiKey = Some k" and "k \<noteq> []"
  shows "(\<forall>m. JSON_parse E (stripFence (trim t)) = Inl m \<longrightarrow>
            analyzeWorkflow E apiKey (ResponseText t) h
              = (RejectedError (if m = [] then [] else geminiPrefix @ m), h))
         \<and> (\<forall>j w. JSON_parse E (stripFence (trim t)) = Inr j \<and> decodeResult j = Some w \<longrightarrow>
              (\<exists>r h'. analyzeWorkflow E apiKey (ResponseText t) h = (Resolved r, h')
                 \<and> length (errors r) = length (w_errors w)
                 \<and> (\<forall>i < length (w_errors w).
                      storedAs E h' (w_newValue (w_errors w ! i))
                        (newValue (jsonModification (errors r ! i))))))"
proof (intro conjI allI impI)
  fix m assume "JSON_parse E (stripFence (trim t)) = Inl m"
  with assms show "analyzeWorkflow E apiKey (ResponseText t) h
              = (RejectedError (if m = [] then [] else geminiPrefix @ m), h)"
    by (simp add: analyzeWorkflow_def caughtMessage_def errorObject_def)
next
  fix j w assume jw: "JSON_parse E (stripFence (trim t)) = Inr j \<and> decodeResult j = Some w"
  obtain es h' where p: "postProcessErrors E (w_errors w) h = (es, h')"
    by (cases "postProcessErrors E (w_errors w) h")
  from postProcessErrors_storedAs [OF p] assms jw p
  show "\<exists>r h'. analyzeWorkflow E apiKey (ResponseText t) h = (Resolved r, h')
                 \<and> length (errors r) = length (w_errors w)
                 \<and> (\<forall>i < length (w_errors w).
                      storedAs E h' (w_newValue (w_errors w ! i))
                        (newValue (jsonModification (errors r ! i))))"
    by (simp add: analyzeWorkflow_def)
qed

theorem analyzeWorkflow_payload_witness:
  "\<exists>r. analyzeWorkflow referenceEngine (Some ''key'') (ResponseText response_example) []
          = (Resolved r, [OArr [VNum (Fin 1)] []])
        \<and> map (\<lambda>e. newValue (jsonModification e)) (errors r) = [VRef 0, VStr ''<KEY>'']
        \<and> snapshot 1 [OArr [VNum (Fin 1)] []] (VRef 0) = Some (JArr [JNum (Fin 1)])"
proof -
  from decode_example obtain j where
    j: "JSON_parse referenceEngine (stripFence (trim response_example)) = Inr j \<and> decodeResult j = Some wire_example"
    by (auto simp: referenceEngine_def strip_example)
  have k: "Some ''key'' = Some ''key''" "''key'' \<noteq> []" by simp_all
  from analyzeWorkflow_payload [OF k, of referenceEngine response_example "[]"] j
  obtain r h' where r: "analyzeWorkflow referenceEngine (Some ''key'') (ResponseText response_example) [] = (Resolved r, h')"
    and s: "\<forall>i < length (w_errors wire_example).
                      storedAs referenceEngine h' (w_newValue (w_errors wire_example ! i))
                        (newValue (jsonModification (errors r ! i)))"
    by blast
  from r j have e: "errors r = fst (postProcessErrors referenceEngine (w_errors wire_example) [])"
    and h: "h' = snd (postProcessErrors referenceEngine (w_errors wire_example) [])"
    by (auto simp: analyzeWorkflow_def split: prod.splits)
  have p: "postProcessErrors referenceEngine (w_errors wire_example) []
      = ([\<lparr>error_id = ''e1'', severity = Info, description = [], impact = [], nodeId = None,
            recommendation = [],
            jsonModification = \<lparr>path = ''tags'', newValue = VRef 0, requiresUserInput = False\<rparr>\<rparr>,
          \<lparr>error_id = ''e2'', severity = Critical, description = [], impact = [], nodeId = Some ''n1'',
            recommendation = [],
            jsonModification = \<lparr>path = ''key'', newValue = VStr ''<KEY>'', requiresUserInput = True\<rparr>\<rparr>],
         [OArr [VNum (Fin 1)] []])"
    by (simp add: wire_example_def postProcessError_def referenceEngine_def parse_values)
  from s [rule_format, of 0]
  have "storedAs referenceEngine h' ''[1]'' (newValue (jsonModification (errors r ! 0)))"
    by (simp add: wire_example_def)
  then have "snapshot 1 h' (newValue (jsonModification (errors r ! 0))) = Some (JArr [JNum (Fin 1)])"
    by (simp add: storedAs_def referenceEngine_def parse_values)
  with r e h p show ?thesis by simp
qed

section \<open>The frame of the document patcher\<close>

lemma insertIndexKey_values:
  "snd ` set (insertIndexKey k v fs) = insert v (snd ` set fs)"
  by (induction fs) auto

lemma putProperty_values:
  "snd ` set (putProperty k v fs) \<subseteq> insert v (snd ` set fs)"
  by (auto simp: putProperty_def insertIndexKey_values)

lemma putProperty_refs:
  "(\<Union>f \<in> set (putProperty k v fs). valRefs (snd f)) \<subseteq> valRefs v \<union> (\<Union>f \<in> set fs. valRefs (snd f))"
proof
  fix a assume "a \<in> (\<Union>f \<in> set (putProperty k v fs). valRefs (snd f))"
  then obtain f where f: "f \<in> set (putProperty k v fs)" "a \<in> valRefs (snd f)" by auto
  then have "snd f \<in> insert v (snd ` set fs)" using putProperty_values [of k v fs] by auto
  with f(2) show "a \<in> valRefs v \<union> (\<Union>f \<in> set fs. valRefs (snd f))" by fastforce
qed

lemma setElement_set: "set (setElement n v es) \<subseteq> insert v (insert VUndef (set es))"
  by (auto simp: setElement_def dest: set_update_subset_insert [THEN subsetD])

lemma resize_set: "set (resize n es) \<subseteq> insert VUndef (set es)"
  by (auto simp: resize_def dest: in_set_takeD)

lemma setProperty_refs:
  assumes "setProperty E h ob k v = Some ob'"
  shows "refsOf ob' \<subseteq> refsOf ob \<union> valRefs v"
proof (cases ob)
  case (OObj fs)
  with assms have "ob' = OObj (putProperty k v fs)" by (simp add: setProperty_def)
  with OObj putProperty_refs [of k v fs] show ?thesis by (auto simp: refsOf_def)
next
  case (OArr es xs)
  show ?thesis
  proof (cases "isArrayIndex k")
    case True
    with assms OArr have o': "ob' = OArr (setElement (natOfDigits k) v es) xs"
      by (simp add: setProperty_def)
    have "(\<Union>e \<in> set (setElement (natOfDigits k) v es). valRefs e) \<subseteq> valRefs v \<union> (\<Union>e \<in> set es. valRefs e)"
      using setElement_set [of "natOfDigits k" v es] by (fastforce simp: valRefs_def)
    with o' OArr show ?thesis by (auto simp: refsOf_def)
  next
    case False
    show ?thesis
    proof (cases "k = ''length''")
      case True
      with assms OArr False obtain n where o': "ob' = OArr (resize n es) xs"
        by (auto simp: setProperty_def split: option.splits)
      have "(\<Union>e \<in> set (resize n es). valRefs e) \<subseteq> (\<Union>e \<in> set es. valRefs e)"
        using resize_set [of n es] by (fastforce simp: valRefs_def)
      with o' OArr show ?thesis by (auto simp: refsOf_def)
    next
      case nl: False
      with assms OArr False have o': "ob' = OArr es (putProperty k v xs)"
        by (simp add: setProperty_def)
      with OArr putProperty_refs [of k v xs] show ?thesis by (auto simp: refsOf_def)
    qed
  qed
qed

lemma lookupProperty_refs: "valRefs (lookupProperty fs k) \<subseteq> (\<Union>f \<in> set fs. valRefs (snd f))"
proof (cases "map_of fs k")
  case None
  then show ?thesis by (simp add: lookupProperty_def valRefs_def)
next
  case (Some v)
  then have "(k, v) \<in> set fs" by (rule map_of_SomeD)
  with Some show ?thesis by (force simp: lookupProperty_def)
qed

lemma getProperty_refs: "valRefs (getProperty ob k) \<subseteq> refsOf ob"
proof (cases ob)
  case (OObj fs)
  then show ?thesis using lookupProperty_refs [of fs k] by (simp add: getProperty_def refsOf_def)
next
  case (OArr es xs)
  then show ?thesis using lookupProperty_refs [of xs k]
    by (auto simp: getProperty_def refsOf_def valRefs_def)
qed


lemma closedIn_update:
  assumes "closedIn h C" and "refsOf ob \<subseteq> C"
  shows "closedIn (h[a := ob]) C"
  unfolding closedIn_def
proof (intro ballI impI)
  fix b assume b: "b \<in> C" "b < length (h[a := ob])"
  show "refsOf (h[a := ob] ! b) \<subseteq> C"
  proof (cases "b = a")
    case True
    with b assms(2) show ?thesis by simp
  next
    case False
    with b assms(1) show ?thesis by (simp add: closedIn_def)
  qed
qed

lemma closedIn_append:
  assumes "closedIn h C" and "refsOf ob \<subseteq> C"
  shows "closedIn (h @ [ob]) C"
  unfolding closedIn_def
proof (intro ballI impI)
  fix b assume b: "b \<in> C" "b < length (h @ [ob])"
  show "refsOf ((h @ [ob]) ! b) \<subseteq> C"
  proof (cases "b < length h")
    case True
    with b assms(1) show ?thesis by (simp add: closedIn_def nth_append)
  next
    case False
    with b have "b = length h" by simp
    with assms(2) show ?thesis by simp
  qed
qed

lemma refsOf_empty [simp]: "refsOf (OObj []) = {}" "refsOf (OArr [] []) = {}"
  by (simp_all add: refsOf_def)

text \<open>The loop writes only to objects of a region that is closed and holds every new
  address, and it leaves the region closed.\<close>

lemma baseSetLoop_frame:
  assumes "closedIn h C" and "valRefs nested \<subseteq> C" and "valRefs v \<subseteq> C"
    and "\<forall>a \<ge> length h. a \<in> C"
  shows "length h \<le> length (snd (baseSetLoop E ks v nested h))
         \<and> closedIn (snd (baseSetLoop E ks v nested h)) C
         \<and> (\<forall>a < length h. a \<notin> C \<longrightarrow> snd (baseSetLoop E ks v nested h) ! a = h ! a)"
  using assms
proof (induction ks arbitrary: nested h)
  case Nil
  then show ?case by simp
next
  case (Cons key rest)
  show ?case
  proof (cases "nested = VUndef \<or> nested = VNull \<or> unsafeKey key")
    case True
    with Cons.prems show ?thesis by auto
  next
    case go: False
    show ?thesis
    proof (cases nested)
      case (VRef a)
      with Cons.prems have aC: "a \<in> C" by (simp add: valRefs_def)
      show ?thesis
      proof (cases "lookupObj h a")
        case None
        with go VRef Cons.prems show ?thesis by simp
      next
        case (Some ob)
        then have al: "a < length h" and ob: "ob = h ! a"
          by (auto simp: lookupObj_def split: if_splits)
        from Cons.prems(1) aC al ob have obC: "refsOf ob \<subseteq> C" by (auto simp: closedIn_def)
        define nh where "nh = (if rest = [] then (v, h)
                         else if isObject (getProperty ob key) then (getProperty ob key, h)
                         else (VRef (length h),
                               h @ [if isIndex (hd rest) then OArr [] [] else OObj []]))"
        obtain nv h1 where nh: "nh = (nv, h1)" by (cases nh)
        have nvC: "valRefs nv \<subseteq> C"
          using nh Cons.prems(3,4) getProperty_refs [of ob key] obC
          by (auto simp: nh_def valRefs_def split: if_splits)
        have h1: "length h \<le> length h1" "closedIn h1 C" "\<forall>b < length h. h1 ! b = h ! b"
          using nh Cons.prems(1)
          by (auto simp: nh_def nth_append closedIn_append split: if_splits)
        show ?thesis
        proof (cases "setProperty E h1 ob key nv")
          case None
          with go VRef Some nh h1 show ?thesis by (simp add: nh_def [symmetric])
        next
          case sp: (Some ob')
          from setProperty_refs [OF sp] obC nvC have ob'C: "refsOf ob' \<subseteq> C" by auto
          let ?h2 = "h1[a := ob']"
          have c2: "closedIn ?h2 C" using h1(2) ob'C by (rule closedIn_update)
          have n2: "valRefs (getProperty ob' key) \<subseteq> C"
            using getProperty_refs [of ob' key] ob'C by auto
          have f2: "\<forall>a \<ge> length ?h2. a \<in> C" using Cons.prems(4) h1(1) by auto
          from Cons.IH [OF c2 n2 Cons.prems(3) f2]
          have ih: "length ?h2 \<le> length (snd (baseSetLoop E rest v (getProperty ob' key) ?h2))"
            "closedIn (snd (baseSetLoop E rest v (getProperty ob' key) ?h2)) C"
            "\<forall>b < length ?h2. b \<notin> C \<longrightarrow> snd (baseSetLoop E rest v (getProperty ob' key) ?h2) ! b = ?h2 ! b"
            by auto
          have eq: "baseSetLoop E (key # rest) v nested h
                      = baseSetLoop E rest v (getProperty ob' key) ?h2"
            using go VRef Some nh sp by (simp add: nh_def [symmetric])
          show ?thesis
          proof (intro conjI allI impI)
            show "length h \<le> length (snd (baseSetLoop E (key # rest) v nested h))"
              using eq ih(1) h1(1) by simp
            show "closedIn (snd (baseSetLoop E (key # rest) v nested h)) C"
              using eq ih(2) by simp
          next
            fix b assume b: "b < length h" "b \<notin> C"
            with aC have ne: "b \<noteq> a" by auto
            from b h1(1) have "b < length ?h2" by simp
            with ih(3) b(2) have "snd (baseSetLoop E rest v (getProperty ob' key) ?h2) ! b = ?h2 ! b"
              by simp
            also have "\<dots> = h1 ! b" using ne by simp
            also have "\<dots> = h ! b" using h1(3) b(1) by simp
            finally show "snd (baseSetLoop E (key # rest) v nested h) ! b = h ! b"
              using eq by simp
          qed
        qed
      qed
    qed (use go Cons.prems in auto)
  qed
qed


lemma lodashSet_frame:
  assumes "closedIn h C" and "valRefs object \<subseteq> C" and "valRefs v \<subseteq> C"
    and "\<forall>a \<ge> length h. a \<in> C"
  shows "length h \<le> length (snd (lodashSet E object p v h))
         \<and> closedIn (snd (lodashSet E object p v h)) C
         \<and> (\<forall>a < length h. a \<notin> C \<longrightarrow> snd (lodashSet E object p v h) ! a = h ! a)"
proof (cases object)
  case (VRef a)
  show ?thesis
  proof (cases "lookupObj h a")
    case None
    with VRef assms show ?thesis by (simp add: lodashSet_def)
  next
    case (Some ob)
    with VRef baseSetLoop_frame [OF assms, of E "castPath p ob"] show ?thesis
      by (simp add: lodashSet_def)
  qed
qed (use assms in \<open>auto simp: lodashSet_def\<close>)

lemma applyFixes_frame:
  assumes "closedIn h C" and "valRefs cw \<subseteq> C"
    and "\<forall>e \<in> set es. valRefs (newValue (jsonModification e)) \<subseteq> C"
    and "\<forall>a \<ge> length h. a \<in> C"
  shows "length h \<le> length (snd (applyFixes E es approved cw h))
         \<and> closedIn (snd (applyFixes E es approved cw h)) C
         \<and> (\<forall>a < length h. a \<notin> C \<longrightarrow> snd (applyFixes E es approved cw h) ! a = h ! a)"
  using assms
proof (induction es arbitrary: h)
  case Nil
  then show ?case by simp
next
  case (Cons e es)
  show ?case
  proof (cases "error_id e \<in> approved")
    case False
    with Cons show ?thesis by simp
  next
    case True
    from Cons.prems(3) have ve: "valRefs (newValue (jsonModification e)) \<subseteq> C" by simp
    obtain x h1 where l: "lodashSet E cw (path (jsonModification e)) (newValue (jsonModification e)) h = (x, h1)"
      by (cases "lodashSet E cw (path (jsonModification e)) (newValue (jsonModification e)) h")
    from lodashSet_frame [OF Cons.prems(1,2) ve Cons.prems(4), of E "path (jsonModification e)"] l
    have f1: "length h \<le> length h1" "closedIn h1 C" "\<forall>a < length h. a \<notin> C \<longrightarrow> h1 ! a = h ! a"
      by auto
    show ?thesis
    proof (cases x)
      case (Some ex)
      with True l f1 show ?thesis by simp
    next
      case None
      from Cons.prems(3) have r: "\<forall>e \<in> set es. valRefs (newValue (jsonModification e)) \<subseteq> C" by simp
      from Cons.prems(4) f1(1) have g: "\<forall>a \<ge> length h1. a \<in> C" by auto
      from Cons.IH [OF f1(2) Cons.prems(2) r g]
      have ih: "length h1 \<le> length (snd (applyFixes E es approved cw h1))"
        "closedIn (snd (applyFixes E es approved cw h1)) C"
        "\<forall>a < length h1. a \<notin> C \<longrightarrow> snd (applyFixes E es approved cw h1) ! a = h1 ! a"
        by auto
      have eq: "applyFixes E (e # es) approved cw h = applyFixes E es approved cw h1"
        using True l None by simp
      show ?thesis
      proof (intro conjI allI impI)
        show "length h \<le> length (snd (applyFixes E (e # es) approved cw h))"
          using eq ih(1) f1(1) by simp
        show "closedIn (snd (applyFixes E (e # es) approved cw h)) C"
          using eq ih(2) by simp
      next
        fix a assume a: "a < length h" "a \<notin> C"
        with f1(1) ih(3) have "snd (applyFixes E es approved cw h1) ! a = h1 ! a" by simp
        with f1(3) a eq show "snd (applyFixes E (e # es) approved cw h) ! a = h ! a" by simp
      qed
    qed
  qed
qed

text \<open>The objects that \<open>alloc\<close> creates refer to objects that \<open>alloc\<close> created.\<close>

lemma alloc_region:
  "valRefs (fst (alloc j h)) \<subseteq> {b. length h \<le> b}
   \<and> (\<forall>a < length (snd (alloc j h)). length h \<le> a \<longrightarrow> refsOf (snd (alloc j h) ! a) \<subseteq> {b. length h \<le> b})"
  "(\<forall>v \<in> set (fst (alloc_list xs h)). valRefs v \<subseteq> {b. length h \<le> b})
   \<and> (\<forall>a < length (snd (alloc_list xs h)). length h \<le> a \<longrightarrow> refsOf (snd (alloc_list xs h) ! a) \<subseteq> {b. length h \<le> b})"
  "(\<forall>f \<in> set (fst (alloc_fields fs h)). valRefs (snd f) \<subseteq> {b. length h \<le> b})
   \<and> (\<forall>a < length (snd (alloc_fields fs h)). length h \<le> a \<longrightarrow> refsOf (snd (alloc_fields fs h) ! a) \<subseteq> {b. length h \<le> b})"
proof (induction j h and xs h and fs h rule: alloc_alloc_list_alloc_fields.induct)
  case (5 xs h)
  obtain vs h' where a: "alloc_list xs h = (vs, h')" by (cases "alloc_list xs h")
  from alloc_extends(2) [of xs h] a have le: "length h \<le> length h'" by auto
  from 5 a have ih: "\<forall>v \<in> set vs. valRefs v \<subseteq> {b. length h \<le> b}"
    "\<forall>a < length h'. length h \<le> a \<longrightarrow> refsOf (h' ! a) \<subseteq> {b. length h \<le> b}" by auto
  from ih(1) have r: "refsOf (OArr vs []) \<subseteq> {b. length h \<le> b}" by (auto simp: refsOf_def)
  show ?case
  proof (intro conjI allI impI)
    show "valRefs (fst (alloc (JArr xs) h)) \<subseteq> {b. length h \<le> b}"
      using a le by (simp add: valRefs_def)
  next
    fix b assume b: "b < length (snd (alloc (JArr xs) h))" "length h \<le> b"
    show "refsOf (snd (alloc (JArr xs) h) ! b) \<subseteq> {b. length h \<le> b}"
    proof (cases "b < length h'")
      case True
      with a ih(2) b(2) show ?thesis by (simp add: nth_append)
    next
      case False
      with a b(1) have "b = length h'" by simp
      with a r show ?thesis by simp
    qed
  qed
next
  case (6 fs h)
  obtain kvs h' where a: "alloc_fields fs h = (kvs, h')" by (cases "alloc_fields fs h")
  from alloc_extends(3) [of fs h] a have le: "length h \<le> length h'" by auto
  from 6 a have ih: "\<forall>f \<in> set kvs. valRefs (snd f) \<subseteq> {b. length h \<le> b}"
    "\<forall>a < length h'. length h \<le> a \<longrightarrow> refsOf (h' ! a) \<subseteq> {b. length h \<le> b}" by auto
  from ih(1) have r: "refsOf (OObj kvs) \<subseteq> {b. length h \<le> b}" by (auto simp: refsOf_def)
  show ?case
  proof (intro conjI allI impI)
    show "valRefs (fst (alloc (JObj fs) h)) \<subseteq> {b. length h \<le> b}"
      using a le by (simp add: valRefs_def)
  next
    fix b assume b: "b < length (snd (alloc (JObj fs) h))" "length h \<le> b"
    show "refsOf (snd (alloc (JObj fs) h) ! b) \<subseteq> {b. length h \<le> b}"
    proof (cases "b < length h'")
      case True
      with a ih(2) b(2) show ?thesis by (simp add: nth_append)
    next
      case False
      with a b(1) have "b = length h'" by simp
      with a r show ?thesis by simp
    qed
  qed
next
  case (8 x xs h)
  obtain v h1 where a1: "alloc x h = (v, h1)" by (cases "alloc x h")
  obtain vs h2 where a2: "alloc_list xs h1 = (vs, h2)" by (cases "alloc_list xs h1")
  from alloc_extends(1) [of x h] a1 have le1: "length h \<le> length h1" by auto
  from alloc_extends(2) [of xs h1] a2 obtain ext where e: "h2 = h1 @ ext" by auto
  from 8(1) a1 have ih1: "valRefs v \<subseteq> {b. length h \<le> b}"
    "\<forall>a < length h1. length h \<le> a \<longrightarrow> refsOf (h1 ! a) \<subseteq> {b. length h \<le> b}" by auto
  from 8(2) [OF a1 [symmetric]] a1 a2 have ih2: "\<forall>v \<in> set vs. valRefs v \<subseteq> {b. length h1 \<le> b}"
    "\<forall>a < length h2. length h1 \<le> a \<longrightarrow> refsOf (h2 ! a) \<subseteq> {b. length h1 \<le> b}" by auto
  show ?case
  proof (intro conjI ballI allI impI)
    fix w assume "w \<in> set (fst (alloc_list (x # xs) h))"
    with a1 a2 have "w = v \<or> w \<in> set vs" by auto
    with ih1(1) ih2(1) le1 show "valRefs w \<subseteq> {b. length h \<le> b}" by fastforce
  next
    fix b assume b: "b < length (snd (alloc_list (x # xs) h))" "length h \<le> b"
    show "refsOf (snd (alloc_list (x # xs) h) ! b) \<subseteq> {b. length h \<le> b}"
    proof (cases "b < length h1")
      case True
      with a1 a2 e ih1(2) b(2) show ?thesis by (simp add: nth_append)
    next
      case False
      with a1 a2 b(1) ih2(2) have "refsOf (h2 ! b) \<subseteq> {b. length h1 \<le> b}" by simp
      with a1 a2 le1 show ?thesis by fastforce
    qed
  qed
next
  case (10 f fs h)
  obtain v h1 where a1: "alloc (snd f) h = (v, h1)" by (cases "alloc (snd f) h")
  obtain kvs h2 where a2: "alloc_fields fs h1 = (kvs, h2)" by (cases "alloc_fields fs h1")
  from alloc_extends(1) [of "snd f" h] a1 have le1: "length h \<le> length h1" by auto
  from alloc_extends(3) [of fs h1] a2 obtain ext where e: "h2 = h1 @ ext" by auto
  from 10(1) a1 have ih1: "valRefs v \<subseteq> {b. length h \<le> b}"
    "\<forall>a < length h1. length h \<le> a \<longrightarrow> refsOf (h1 ! a) \<subseteq> {b. length h \<le> b}" by auto
  from 10(2) [OF a1 [symmetric]] a1 a2 have ih2: "\<forall>g \<in> set kvs. valRefs (snd g) \<subseteq> {b. length h1 \<le> b}"
    "\<forall>a < length h2. length h1 \<le> a \<longrightarrow> refsOf (h2 ! a) \<subseteq> {b. length h1 \<le> b}" by auto
  show ?case
  proof (intro conjI ballI allI impI)
    fix g assume "g \<in> set (fst (alloc_fields (f # fs) h))"
    with a1 a2 have "snd g = v \<or> g \<in> set kvs" by auto
    with ih1(1) ih2(1) le1 show "valRefs (snd g) \<subseteq> {b. length h \<le> b}" by fastforce
  next
    fix b assume b: "b < length (snd (alloc_fields (f # fs) h))" "length h \<le> b"
    show "refsOf (snd (alloc_fields (f # fs) h) ! b) \<subseteq> {b. length h \<le> b}"
    proof (cases "b < length h1")
      case True
      with a1 a2 e ih1(2) b(2) show ?thesis by (simp add: nth_append)
    next
      case False
      with a1 a2 b(1) ih2(2) have "refsOf (h2 ! b) \<subseteq> {b. length h1 \<le> b}" by simp
      with a1 a2 le1 show ?thesis by fastforce
    qed
  qed
qed (auto simp: valRefs_def)

lemma alloc_closedIn:
  assumes "closedIn h C" and "\<forall>a \<ge> length h. a \<in> C" and "alloc j h = (v, h')"
  shows "closedIn h' C \<and> valRefs v \<subseteq> C \<and> length h \<le> length h' \<and> (\<forall>a < length h. h' ! a = h ! a)"
proof -
  from alloc_extends(1) [of j h] assms(3) obtain ext where e: "h' = h @ ext" by auto
  from alloc_region(1) [of j h] assms(3)
  have r: "valRefs v \<subseteq> {b. length h \<le> b}"
    "\<forall>a < length h'. length h \<le> a \<longrightarrow> refsOf (h' ! a) \<subseteq> {b. length h \<le> b}" by auto
  have "closedIn h' C"
    unfolding closedIn_def
  proof (intro ballI impI)
    fix a assume a: "a \<in> C" "a < length h'"
    show "refsOf (h' ! a) \<subseteq> C"
    proof (cases "a < length h")
      case True
      with a assms(1) e show ?thesis by (simp add: closedIn_def nth_append)
    next
      case False
      with a r(2) have "refsOf (h' ! a) \<subseteq> {b. length h \<le> b}" by simp
      with assms(2) show ?thesis by auto
    qed
  qed
  with r(1) assms(2) e show ?thesis by (auto simp: nth_append)
qed

text \<open>A value reads the same in two stores that agree on a closed region that holds it.\<close>

lemma snapshot_frame:
  assumes "closedIn h R" and "R \<subseteq> {..<length h}"
    and "\<forall>a \<in> R. a < length h' \<and> h' ! a = h ! a"
  shows "valRefs v \<subseteq> R \<Longrightarrow> snapshot d h' v = snapshot d h v"
proof (induction d arbitrary: v)
  case 0
  then show ?case by (cases v) auto
next
  case (Suc d)
  show ?case
  proof (cases v)
    case (VRef a)
    with Suc.prems have aR: "a \<in> R" by (simp add: valRefs_def)
    with assms have al: "a < length h" "a < length h'" "h' ! a = h ! a" by auto
    from assms(1) aR al(1) have cl: "refsOf (h ! a) \<subseteq> R" by (simp add: closedIn_def)
    from al have lo: "lookupObj h' a = Some (h ! a)" "lookupObj h a = Some (h ! a)"
      by (simp_all add: lookupObj_def)
    show ?thesis
    proof (cases "h ! a")
      case (OObj fs)
      have m: "map (\<lambda>f. map_option (Pair (fst f)) (snapshot d h' (snd f))) (filter (\<lambda>f. snd f \<noteq> VUndef) fs)
            = map (\<lambda>f. map_option (Pair (fst f)) (snapshot d h (snd f))) (filter (\<lambda>f. snd f \<noteq> VUndef) fs)"
      proof (rule map_cong [OF refl])
        fix f assume "f \<in> set (filter (\<lambda>f. snd f \<noteq> VUndef) fs)"
        then have "f \<in> set fs" by simp
        with cl OObj have "valRefs (snd f) \<subseteq> R" by (auto simp: refsOf_def)
        then show "map_option (Pair (fst f)) (snapshot d h' (snd f))
                   = map_option (Pair (fst f)) (snapshot d h (snd f))"
          by (simp add: Suc.IH)
      qed
      from VRef lo OObj show ?thesis by (simp add: m)
    next
      case (OArr es xs)
      have m: "map (snapshot d h') es = map (snapshot d h) es"
      proof (rule map_cong [OF refl])
        fix e assume "e \<in> set es"
        with cl OArr have "valRefs e \<subseteq> R" by (auto simp: refsOf_def)
        then show "snapshot d h' e = snapshot d h e" by (rule Suc.IH)
      qed
      from VRef lo OArr show ?thesis by (simp add: m)
    qed
  qed auto
qed

text \<open>Let the objects of the original document lie in a closed region \<open>R\<close> of the store
  and the objects of the proposed values in a closed region \<open>N\<close> apart from it. Then
  computing the corrected document leaves every object of \<open>R\<close> as it was, and the two
  regions are closed and apart afterwards as well, with the new objects on the side of
  \<open>N\<close>.\<close>

lemma correctedWorkflowJson_preserves_original:
  assumes "closedIn (store s) R" and "valRefs (originalWorkflow s) \<subseteq> R"
    and "R \<subseteq> {..<length (store s)}"
    and "closedIn (store s) N"
    and "\<forall>r. analysisResult s = Some r \<longrightarrow>
            (\<forall>e \<in> set (errors r). valRefs (newValue (jsonModification e)) \<subseteq> N)"
    and "R \<inter> N = {}"
  shows "(\<forall>a \<in> R. a < length (snd (correctedWorkflowJson E s))
                  \<and> snd (correctedWorkflowJson E s) ! a = store s ! a)
         \<and> (\<forall>d. snapshot d (snd (correctedWorkflowJson E s)) (originalWorkflow s)
                  = snapshot d (store s) (originalWorkflow s))
         \<and> closedIn (snd (correctedWorkflowJson E s)) R
         \<and> closedIn (snd (correctedWorkflowJson E s)) (N \<union> {a. length (store s) \<le> a})
         \<and> R \<inter> (N \<union> {a. length (store s) \<le> a}) = {}"
proof -
  let ?h = "store s" and ?h' = "snd (correctedWorkflowJson E s)"
  let ?C = "N \<union> {a. length ?h \<le> a}"
  have cC: "closedIn ?h ?C"
    using assms(4) by (auto simp: closedIn_def)
  have fC: "\<forall>a \<ge> length ?h. a \<in> ?C" by simp
  have dis: "R \<inter> ?C = {}" using assms(3,6) by auto
  have frame: "length ?h \<le> length ?h' \<and> closedIn ?h' ?C \<and> (\<forall>a < length ?h. a \<notin> ?C \<longrightarrow> ?h' ! a = ?h ! a)"
  proof (cases "\<not> truthy (originalWorkflow s) \<or> analysisResult s = None")
    case True
    then have "?h' = ?h" by (auto simp: correctedWorkflowJson_def)
    with cC show ?thesis by simp
  next
    case False
    then obtain r where r: "analysisResult s = Some r" and t: "truthy (originalWorkflow s)" by auto
    show ?thesis
    proof (cases "jsonClone E (originalWorkflow s) ?h")
      case (Inl x)
      with r t have "?h' = ?h" by (simp add: correctedWorkflowJson_def)
      with cC show ?thesis by simp
    next
      case (Inr c)
      obtain cw h1 where c: "c = (cw, h1)" by (cases c)
      with Inr obtain j where a: "alloc j ?h = (cw, h1)"
        by (auto simp: jsonClone_def split: if_splits option.splits)
      from alloc_closedIn [OF cC fC a]
      have a1: "closedIn h1 ?C" "valRefs cw \<subseteq> ?C" "length ?h \<le> length h1" "\<forall>a < length ?h. h1 ! a = ?h ! a"
        by auto
      from assms(5) r have nv: "\<forall>e \<in> set (errors r). valRefs (newValue (jsonModification e)) \<subseteq> ?C"
        by auto
      from a1(3) have f1: "\<forall>a \<ge> length h1. a \<in> ?C" by auto
      from applyFixes_frame [OF a1(1,2) nv f1, of E "approvedFixes s"]
      have af: "length h1 \<le> length (snd (applyFixes E (errors r) (approvedFixes s) cw h1))"
        "closedIn (snd (applyFixes E (errors r) (approvedFixes s) cw h1)) ?C"
        "\<forall>a < length h1. a \<notin> ?C \<longrightarrow> snd (applyFixes E (errors r) (approvedFixes s) cw h1) ! a = h1 ! a"
        by auto
      have "?h' = snd (applyFixes E (errors r) (approvedFixes s) cw h1)"
        using r t Inr c by (auto simp: correctedWorkflowJson_def split: prod.splits option.splits)
      with af a1(3,4) show ?thesis by auto
    qed
  qed
  have keep: "\<forall>a \<in> R. a < length ?h' \<and> ?h' ! a = ?h ! a"
  proof
    fix a assume "a \<in> R"
    with assms(3) dis have "a < length ?h" "a \<notin> ?C" by auto
    with frame show "a < length ?h' \<and> ?h' ! a = ?h ! a" by auto
  qed
  have snap: "\<forall>d. snapshot d ?h' (originalWorkflow s) = snapshot d ?h (originalWorkflow s)"
    using snapshot_frame [OF assms(1) assms(3) keep assms(2)] by simp
  have cR: "closedIn ?h' R"
    using assms(1,3) keep by (auto simp: closedIn_def)
  from keep snap cR frame dis show ?thesis by simp
qed

subsection \<open>Every state of the session keeps the two regions apart\<close>

lemma alloc_upper:
  "valRefs (fst (alloc j h)) \<subseteq> {..<length (snd (alloc j h))}
   \<and> (\<forall>a < length (snd (alloc j h)). length h \<le> a \<longrightarrow>
          refsOf (snd (alloc j h) ! a) \<subseteq> {..<length (snd (alloc j h))})"
  "(\<forall>v \<in> set (fst (alloc_list xs h)). valRefs v \<subseteq> {..<length (snd (alloc_list xs h))})
   \<and> (\<forall>a < length (snd (alloc_list xs h)). length h \<le> a \<longrightarrow>
          refsOf (snd (alloc_list xs h) ! a) \<subseteq> {..<length (snd (alloc_list xs h))})"
  "(\<forall>f \<in> set (fst (alloc_fields fs h)). valRefs (snd f) \<subseteq> {..<length (snd (alloc_fields fs h))})
   \<and> (\<forall>a < length (snd (alloc_fields fs h)). length h \<le> a \<longrightarrow>
          refsOf (snd (alloc_fields fs h) ! a) \<subseteq> {..<length (snd (alloc_fields fs h))})"
proof (induction j h and xs h and fs h rule: alloc_alloc_list_alloc_fields.induct)
  case (5 xs h)
  obtain vs h' where a: "alloc_list xs h = (vs, h')" by (cases "alloc_list xs h")
  from 5 a have ih: "\<forall>v \<in> set vs. valRefs v \<subseteq> {..<length h'}"
    "\<forall>a < length h'. length h \<le> a \<longrightarrow> refsOf (h' ! a) \<subseteq> {..<length h'}" by auto
  from ih(1) have r: "refsOf (OArr vs []) \<subseteq> {..<Suc (length h')}" by (fastforce simp: refsOf_def)
  show ?case
  proof (intro conjI allI impI)
    show "valRefs (fst (alloc (JArr xs) h)) \<subseteq> {..<length (snd (alloc (JArr xs) h))}"
      using a by (simp add: valRefs_def)
  next
    fix b assume b: "b < length (snd (alloc (JArr xs) h))" "length h \<le> b"
    show "refsOf (snd (alloc (JArr xs) h) ! b) \<subseteq> {..<length (snd (alloc (JArr xs) h))}"
    proof (cases "b < length h'")
      case True
      with ih(2) b(2) have "refsOf (h' ! b) \<subseteq> {..<length h'}" by simp
      with a True show ?thesis by (fastforce simp: nth_append)
    next
      case False
      with a b(1) have "b = length h'" by simp
      with a r show ?thesis by simp
    qed
  qed
next
  case (6 fs h)
  obtain kvs h' where a: "alloc_fields fs h = (kvs, h')" by (cases "alloc_fields fs h")
  from 6 a have ih: "\<forall>f \<in> set kvs. valRefs (snd f) \<subseteq> {..<length h'}"
    "\<forall>a < length h'. length h \<le> a \<longrightarrow> refsOf (h' ! a) \<subseteq> {..<length h'}" by auto
  from ih(1) have r: "refsOf (OObj kvs) \<subseteq> {..<Suc (length h')}" by (fastforce simp: refsOf_def)
  show ?case
  proof (intro conjI allI impI)
    show "valRefs (fst (alloc (JObj fs) h)) \<subseteq> {..<length (snd (alloc (JObj fs) h))}"
      using a by (simp add: valRefs_def)
  next
    fix b assume b: "b < length (snd (alloc (JObj fs) h))" "length h \<le> b"
    show "refsOf (snd (alloc (JObj fs) h) ! b) \<subseteq> {..<length (snd (alloc (JObj fs) h))}"
    proof (cases "b < length h'")
      case True
      with ih(2) b(2) have "refsOf (h' ! b) \<subseteq> {..<length h'}" by simp
      with a True show ?thesis by (fastforce simp: nth_append)
    next
      case False
      with a b(1) have "b = length h'" by simp
      with a r show ?thesis by simp
    qed
  qed
next
  case (8 x xs h)
  obtain v h1 where a1: "alloc x h = (v, h1)" by (cases "alloc x h")
  obtain vs h2 where a2: "alloc_list xs h1 = (vs, h2)" by (cases "alloc_list xs h1")
  from alloc_extends(1) [of x h] a1 have le1: "length h \<le> length h1" by auto
  from alloc_extends(2) [of xs h1] a2 obtain ext where e: "h2 = h1 @ ext" by auto
  from 8(1) a1 have ih1: "valRefs v \<subseteq> {..<length h1}"
    "\<forall>a < length h1. length h \<le> a \<longrightarrow> refsOf (h1 ! a) \<subseteq> {..<length h1}" by auto
  from 8(2) [OF a1 [symmetric]] a1 a2 have ih2: "\<forall>v \<in> set vs. valRefs v \<subseteq> {..<length h2}"
    "\<forall>a < length h2. length h1 \<le> a \<longrightarrow> refsOf (h2 ! a) \<subseteq> {..<length h2}" by auto
  show ?case
  proof (intro conjI ballI allI impI)
    fix w assume "w \<in> set (fst (alloc_list (x # xs) h))"
    with a1 a2 have "w = v \<or> w \<in> set vs" by auto
    with ih1(1) ih2(1) e a1 a2 show "valRefs w \<subseteq> {..<length (snd (alloc_list (x # xs) h))}"
      by fastforce
  next
    fix b assume b: "b < length (snd (alloc_list (x # xs) h))" "length h \<le> b"
    show "refsOf (snd (alloc_list (x # xs) h) ! b) \<subseteq> {..<length (snd (alloc_list (x # xs) h))}"
    proof (cases "b < length h1")
      case True
      with ih1(2) b(2) have "refsOf (h1 ! b) \<subseteq> {..<length h1}" by simp
      with a1 a2 e True show ?thesis by (fastforce simp: nth_append)
    next
      case False
      with a1 a2 b(1) ih2(2) show ?thesis by simp
    qed
  qed
next
  case (10 f fs h)
  obtain v h1 where a1: "alloc (snd f) h = (v, h1)" by (cases "alloc (snd f) h")
  obtain kvs h2 where a2: "alloc_fields fs h1 = (kvs, h2)" by (cases "alloc_fields fs h1")
  from alloc_extends(1) [of "snd f" h] a1 have le1: "length h \<le> length h1" by auto
  from alloc_extends(3) [of fs h1] a2 obtain ext where e: "h2 = h1 @ ext" by auto
  from 10(1) a1 have ih1: "valRefs v \<subseteq> {..<length h1}"
    "\<forall>a < length h1. length h \<le> a \<longrightarrow> refsOf (h1 ! a) \<subseteq> {..<length h1}" by auto
  from 10(2) [OF a1 [symmetric]] a1 a2 have ih2: "\<forall>g \<in> set kvs. valRefs (snd g) \<subseteq> {..<length h2}"
    "\<forall>a < length h2. length h1 \<le> a \<longrightarrow> refsOf (h2 ! a) \<subseteq> {..<length h2}" by auto
  show ?case
  proof (intro conjI ballI allI impI)
    fix g assume "g \<in> set (fst (alloc_fields (f # fs) h))"
    with a1 a2 have "snd g = v \<or> g \<in> set kvs" by auto
    with ih1(1) ih2(1) e a1 a2 show "valRefs (snd g) \<subseteq> {..<length (snd (alloc_fields (f # fs) h))}"
      by fastforce
  next
    fix b assume b: "b < length (snd (alloc_fields (f # fs) h))" "length h \<le> b"
    show "refsOf (snd (alloc_fields (f # fs) h) ! b) \<subseteq> {..<length (snd (alloc_fields (f # fs) h))}"
    proof (cases "b < length h1")
      case True
      with ih1(2) b(2) have "refsOf (h1 ! b) \<subseteq> {..<length h1}" by simp
      with a1 a2 e True show ?thesis by (fastforce simp: nth_append)
    next
      case False
      with a1 a2 b(1) ih2(2) show ?thesis by simp
    qed
  qed
qed (auto simp: valRefs_def)

lemma postProcessErrors_region:
  assumes "postProcessErrors E ws h = (es, h')"
  shows "(\<forall>e \<in> set es. valRefs (newValue (jsonModification e)) \<subseteq> {b. length h \<le> b})
         \<and> (\<forall>a < length h'. length h \<le> a \<longrightarrow> refsOf (h' ! a) \<subseteq> {b. length h \<le> b})"
  using assms
proof (induction ws arbitrary: h es h')
  case Nil
  then show ?case by simp
next
  case (Cons w ws)
  obtain e h1 where p: "postProcessError E w h = (e, h1)" by (cases "postProcessError E w h")
  obtain es' h2 where q: "postProcessErrors E ws h1 = (es', h2)" by (cases "postProcessErrors E ws h1")
  from Cons.prems p q have es: "es = e # es'" and h': "h' = h2" by auto
  from postProcessError_extends [OF p] have le: "length h \<le> length h1" by auto
  from postProcessErrors_extends [of E ws h1] q obtain ext where ext: "h2 = h1 @ ext" by auto
  have e1: "valRefs (newValue (jsonModification e)) \<subseteq> {b. length h \<le> b}
            \<and> (\<forall>a < length h1. length h \<le> a \<longrightarrow> refsOf (h1 ! a) \<subseteq> {b. length h \<le> b})"
    using postProcessError_cases [OF p]
  proof
    assume "\<exists>m. JSON_parse E (w_newValue w) = Inl m \<and> h1 = h
              \<and> newValue (jsonModification e) = VStr (w_newValue w)"
    then show ?thesis by (auto simp: valRefs_def)
  next
    assume "\<exists>j. JSON_parse E (w_newValue w) = Inr j
              \<and> alloc j h = (newValue (jsonModification e), h1)"
    then obtain j where "alloc j h = (newValue (jsonModification e), h1)" by auto
    with alloc_region(1) [of j h] show ?thesis by simp
  qed
  from Cons.IH [OF q]
  have ih: "\<forall>e \<in> set es'. valRefs (newValue (jsonModification e)) \<subseteq> {b. length h1 \<le> b}"
    "\<forall>a < length h2. length h1 \<le> a \<longrightarrow> refsOf (h2 ! a) \<subseteq> {b. length h1 \<le> b}" by auto
  show ?case
  proof (intro conjI ballI allI impI)
    fix x assume "x \<in> set es"
    with es have "x = e \<or> x \<in> set es'" by auto
    with e1 ih(1) le show "valRefs (newValue (jsonModification x)) \<subseteq> {b. length h \<le> b}"
      by fastforce
  next
    fix a assume a: "a < length h'" "length h \<le> a"
    show "refsOf (h' ! a) \<subseteq> {b. length h \<le> b}"
    proof (cases "a < length h1")
      case True
      with e1 a(2) ext h' show ?thesis by (simp add: nth_append)
    next
      case False
      with a(1) h' ih(2) have "refsOf (h2 ! a) \<subseteq> {b. length h1 \<le> b}" by simp
      with le h' show ?thesis by fastforce
    qed
  qed
qed

lemma analyzeWorkflow_region:
  assumes "analyzeWorkflow E key response h = (out, h')"
  shows "(\<exists>ext. h' = h @ ext)
         \<and> (\<forall>a < length h'. length h \<le> a \<longrightarrow> refsOf (h' ! a) \<subseteq> {b. length h \<le> b})
         \<and> (\<forall>r. out = Resolved r \<longrightarrow>
               (\<forall>e \<in> set (errors r). valRefs (newValue (jsonModification e)) \<subseteq> {b. length h \<le> b}))"
proof -
  from assms have "(h' = h \<and> (\<forall>r. out \<noteq> Resolved r))
      \<or> (\<exists>ws r. postProcessErrors E ws h = (errors r, h') \<and> out = Resolved r)"
  proof (cases "key = None \<or> key = Some []")
    case True
    with assms show ?thesis by (auto simp: analyzeWorkflow_def)
  next
    case k: False
    show ?thesis
    proof (cases response)
      case (Rejected t)
      with assms k show ?thesis by (auto simp: analyzeWorkflow_def)
    next
      case ResponseNoText
      with assms k show ?thesis by (auto simp: analyzeWorkflow_def)
    next
      case (ResponseText t)
      show ?thesis
      proof (cases "JSON_parse E (stripFence (trim t))")
        case (Inl m)
        with assms k ResponseText show ?thesis by (auto simp: analyzeWorkflow_def)
      next
        case (Inr j)
        show ?thesis
        proof (cases "decodeResult j")
          case None
          with assms k ResponseText Inr show ?thesis by (auto simp: analyzeWorkflow_def)
        next
          case (Some w)
          obtain es h2 where p: "postProcessErrors E (w_errors w) h = (es, h2)"
            by (cases "postProcessErrors E (w_errors w) h")
          with assms k ResponseText Inr Some have "h' = h2" and "\<exists>r. out = Resolved r \<and> errors r = es"
            by (auto simp: analyzeWorkflow_def)
          with p show ?thesis by blast
        qed
      qed
    qed
  qed
  then show ?thesis
  proof
    assume "h' = h \<and> (\<forall>r. out \<noteq> Resolved r)"
    then show ?thesis by auto
  next
    assume "\<exists>ws r. postProcessErrors E ws h = (errors r, h') \<and> out = Resolved r"
    then obtain ws r where p: "postProcessErrors E ws h = (errors r, h')"
      and o: "out = Resolved r" by auto
    from postProcessErrors_extends [of E ws h] p have "\<exists>ext. h' = h @ ext" by simp
    with postProcessErrors_region [OF p] o show ?thesis by auto
  qed
qed

lemma separated_cong:
  assumes "separated s" and "store s' = store s" and "originalWorkflow s' = originalWorkflow s"
    and "analysisResult s' = analysisResult s"
  shows "separated s'"
  using assms by (simp add: separated_def)

lemma separated_handleAnalyze:
  assumes "separated s"
  shows "separated (handleAnalyze E (\<lambda>t. analyzeWorkflow E key response) s)"
proof (cases "handleAnalyze_validate E s")
  case (Inl s')
  then have "store s' = store s \<and> originalWorkflow s' = originalWorkflow s
             \<and> analysisResult s' = analysisResult s"
    by (auto simp: handleAnalyze_validate_def split: if_splits sum.splits prod.splits)
  with assms Inl show ?thesis by (auto simp: handleAnalyze_def intro: separated_cong)
next
  case (Inr s1)
  let ?h = "store s"
  from Inr obtain j v h1 where a: "alloc j ?h = (v, h1)"
    and s1: "originalWorkflow s1 = v" "store s1 = h1" "analysisResult s1 = None"
    by (auto simp: handleAnalyze_validate_def split: if_splits sum.splits prod.splits)
  obtain out h2 where an: "analyzeWorkflow E key response h1 = (out, h2)"
    by (cases "analyzeWorkflow E key response h1")
  let ?s = "handleAnalyze E (\<lambda>t. analyzeWorkflow E key response) s"
  from Inr an s1 have fin: "store ?s = h2" "originalWorkflow ?s = v"
    "\<forall>r. analysisResult ?s = Some r \<longrightarrow> out = Resolved r"
    by (auto simp: handleAnalyze_def handleAnalyze_settle_def Let_def split: analyzer_outcome.splits)
  from analyzeWorkflow_region [OF an] obtain ext where ext: "h2 = h1 @ ext"
    and nw: "\<forall>a < length h2. length h1 \<le> a \<longrightarrow> refsOf (h2 ! a) \<subseteq> {b. length h1 \<le> b}"
    and nv: "\<forall>r. out = Resolved r \<longrightarrow>
               (\<forall>e \<in> set (errors r). valRefs (newValue (jsonModification e)) \<subseteq> {b. length h1 \<le> b})"
    by auto
  let ?R = "{a. length ?h \<le> a \<and> a < length h1}" and ?N = "{a. length h1 \<le> a}"
  from alloc_region(1) [of j ?h] alloc_upper(1) [of j ?h] a
  have v: "valRefs v \<subseteq> ?R"
    and o: "\<forall>a < length h1. length ?h \<le> a \<longrightarrow> refsOf (h1 ! a) \<subseteq> ?R"
    by auto
  have c1: "closedIn h2 ?R" using o ext by (auto simp: closedIn_def nth_append)
  have c2: "closedIn h2 ?N" using nw by (auto simp: closedIn_def)
  have c3: "?R \<subseteq> {..<length h2}" using ext by auto
  have c4: "?R \<inter> ?N = {}" by auto
  from c1 v c3 c2 nv c4 fin show ?thesis
    unfolding separated_def by (intro exI [of _ ?R] exI [of _ ?N]) auto
qed

lemma separated_recompute:
  assumes "separated s"
  shows "separated (s\<lparr>store := snd (correctedWorkflowJson E s)\<rparr>)"
proof -
  from assms obtain R N where h: "closedIn (store s) R" "valRefs (originalWorkflow s) \<subseteq> R"
    "R \<subseteq> {..<length (store s)}" "closedIn (store s) N"
    "\<forall>r. analysisResult s = Some r \<longrightarrow>
        (\<forall>e \<in> set (errors r). valRefs (newValue (jsonModification e)) \<subseteq> N)"
    "R \<inter> N = {}"
    by (auto simp: separated_def)
  let ?h' = "snd (correctedWorkflowJson E s)" and ?N' = "N \<union> {a. length (store s) \<le> a}"
  from correctedWorkflowJson_preserves_original [OF h, of E]
  have k: "\<forall>a \<in> R. a < length ?h' \<and> ?h' ! a = store s ! a" "closedIn ?h' R" "closedIn ?h' ?N'"
    "R \<inter> ?N' = {}" by auto
  from k(1) have r: "R \<subseteq> {..<length ?h'}" by auto
  from h(5) have n: "\<forall>r. analysisResult s = Some r \<longrightarrow>
        (\<forall>e \<in> set (errors r). valRefs (newValue (jsonModification e)) \<subseteq> ?N')"
    by blast
  from k(2,3,4) h(2) r n show ?thesis
    unfolding separated_def by (intro exI [of _ R] exI [of _ ?N']) simp
qed

lemma reachable_separated: "reachable E s \<Longrightarrow> separated s"
proof (induction rule: reachable.induct)
  case start
  show ?case
    unfolding separated_def
    by (intro exI [of _ "{}"]) (simp add: initial_state_def closedIn_def valRefs_def)
next
  case (analyze s key response)
  then show ?case by (simp add: separated_handleAnalyze)
next
  case (recompute s)
  then show ?case by (simp add: separated_recompute)
next
  case (approveAll s)
  then show ?case
    by (auto simp: approveAllFixes_def split: option.splits intro: separated_cong)
qed (auto simp: toggleFix_def analyzeAnother_def toggleSection_def intro: separated_cong)

text \<open>C4: in every state of the session, whatever the document, the patches and the
  approved set are, computing the corrected document leaves the original as it was: it
  reads the same before and after at every depth, and every object it consists of has
  the properties it had.\<close>

theorem original_never_mutated:
  assumes "reachable E s"
  shows "(\<forall>d. snapshot d (snd (correctedWorkflowJson E s)) (originalWorkflow s)
                = snapshot d (store s) (originalWorkflow s))
         \<and> (\<exists>R. valRefs (originalWorkflow s) \<subseteq> R \<and> closedIn (store s) R
                \<and> (\<forall>a \<in> R. a < length (store s) \<and> a < length (snd (correctedWorkflowJson E s))
                             \<and> snd (correctedWorkflowJson E s) ! a = store s ! a))"
proof -
  from reachable_separated [OF assms] obtain R N where h: "closedIn (store s) R"
    "valRefs (originalWorkflow s) \<subseteq> R"
    "R \<subseteq> {..<length (store s)}" "closedIn (store s) N"
    "\<forall>r. analysisResult s = Some r \<longrightarrow>
        (\<forall>e \<in> set (errors r). valRefs (newValue (jsonModification e)) \<subseteq> N)"
    "R \<inter> N = {}"
    by (auto simp: separated_def)
  from correctedWorkflowJson_preserves_original [OF h, of E] h(1,2,3) show ?thesis
    by (intro conjI exI [of _ R]) auto
qed

theorem original_never_mutated_witness:
  \<open>reachable referenceEngine patched_example
   \<and> snapshot 2 (store patched_example) (originalWorkflow patched_example)
       = Some (JObj [(''tags'', JArr [])])
   \<and> snapshot 2 (snd (correctedWorkflowJson referenceEngine patched_example))
         (originalWorkflow patched_example)
       = Some (JObj [(''tags'', JArr [])])
   \<and> fst (correctedWorkflowJson referenceEngine patched_example)
       = Inr (Some (''{'' @ [CHR 0x0A] @ ''  "tags": ['' @ [CHR 0x0A] @ ''    1'' @ [CHR 0x0A]
                    @ ''  ]'' @ [CHR 0x0A] @ ''}''))\<close>
proof -
  have r: "reachable referenceEngine patched_example"
    unfolding patched_example_def
    by (intro reachable.toggle reachable.analyze reachable.checkApiKey reachable.setJsonInput
          reachable.start)
  have s0: "snapshot 2 (store patched_example) (originalWorkflow patched_example)
              = Some (JObj [(''tags'', JArr [])])"
    by (simp add: patched_example_eval unfold_snapshot lookupObj_def)
  have t: "fst (correctedWorkflowJson referenceEngine patched_example)
       = Inr (Some (''{'' @ [CHR 0x0A] @ ''  '' @ [CHR 0x22] @ ''tags'' @ [CHR 0x22] @ '': [''
                    @ [CHR 0x0A] @ ''    1'' @ [CHR 0x0A] @ ''  ]'' @ [CHR 0x0A] @ ''}''))"
    by (rule patched_example_text)
  from original_never_mutated [OF r] r s0 t show ?thesis by simp
qed

section \<open>Containers along the path\<close>














end
